theory Spec2Isabelle
  imports Complex_Main "HOL-Library.Word" "HOL-Library.Product_Lexorder"
begin

unbundle bit_operations_syntax

section \<open>JavaScript values and typed arrays\<close>

text \<open>
  The sprite renderer (\<^verbatim>\<open>webgl_render2d.js\<close>) works on JavaScript numbers, typed arrays and
  plain arrays.  The embedding keeps the parts of their behaviour that the code relies on:

  \<^item> a floating-point number is a \<open>real option\<close>: \<open>Some x\<close> is the finite number \<open>x\<close> and
    \<open>None\<close> is \<open>NaN\<close>.  Arithmetic is exact on finite numbers and propagates \<open>NaN\<close>; every
    comparison with \<open>NaN\<close> is false.  Rounding and the two infinities are not represented
    (a division by zero gives \<open>None\<close>).
  \<^item> reading a typed array outside its bounds gives \<open>undefined\<close>, which behaves as \<open>NaN\<close> in
    arithmetic and comparisons and as \<open>0\<close> under the integer bit operators; writing outside
    the bounds of a typed array is ignored; writing past the end of a plain array extends it.
  \<^item> a per-quad state token is an opaque value compared with \<open>!==\<close>.
\<close>

type_synonym jsnum = "real option"

datatype 'a jsval = Null | Undefined | Val 'a



definition fmul :: "jsnum \<Rightarrow> jsnum \<Rightarrow> jsnum" where
  "fmul a b = (case a of None \<Rightarrow> None | Some x \<Rightarrow> (case b of None \<Rightarrow> None | Some y \<Rightarrow> Some (x * y)))"

definition fdiv :: "jsnum \<Rightarrow> jsnum \<Rightarrow> jsnum" where
  "fdiv a b = (case a of None \<Rightarrow> None | Some x \<Rightarrow>
                (case b of None \<Rightarrow> None | Some y \<Rightarrow> if y = 0 then None else Some (x / y)))"



text \<open>\<open>a < b\<close> and \<open>a > b\<close> on numbers that may be \<open>NaN\<close> or \<open>undefined\<close>.\<close>

definition js_lt :: "('a::linorder) option \<Rightarrow> 'a option \<Rightarrow> bool" where
  "js_lt a b = (case a of None \<Rightarrow> False | Some x \<Rightarrow> (case b of None \<Rightarrow> False | Some y \<Rightarrow> x < y))"

definition js_gt :: "('a::linorder) option \<Rightarrow> 'a option \<Rightarrow> bool" where
  "js_gt a b = js_lt b a"

text \<open>The 32-bit integer shifts \<open>x << k\<close> and \<open>x >> k\<close> on an integral number.\<close>

definition js_shl :: "int \<Rightarrow> nat \<Rightarrow> int" where
  "js_shl x k = sint (push_bit k (word_of_int x :: 32 word))"

definition js_sar :: "int \<Rightarrow> nat \<Rightarrow> int" where
  "js_sar x k = sint (signed_drop_bit k (word_of_int x :: 32 word))"

text \<open>A \<open>Float32Array\<close>: element read with a natural index or with \<open>undefined\<close> as the key.\<close>

definition f32_get :: "jsnum list \<Rightarrow> nat option \<Rightarrow> jsnum" where
  "f32_get xs k = (case k of None \<Rightarrow> None | Some i \<Rightarrow> if i < length xs then xs ! i else None)"

definition ta_set :: "'a list \<Rightarrow> nat \<Rightarrow> 'a \<Rightarrow> 'a list" where
  "ta_set xs i v = (if i < length xs then xs[i := v] else xs)"


text \<open>
  The \<open>Uint16Array\<close> \<open>order\<close>, indexed by a number that may be negative: a read yields the
  element as a number or \<open>undefined\<close>; a write converts the value modulo \<open>2^16\<close>
  (\<open>undefined\<close> is stored as \<open>0\<close>).
\<close>

definition u16_get :: "16 word list \<Rightarrow> int \<Rightarrow> nat option" where
  "u16_get xs i = (if 0 \<le> i \<and> nat i < length xs then Some (unat (xs ! nat i)) else None)"

definition u16_set :: "16 word list \<Rightarrow> int \<Rightarrow> nat option \<Rightarrow> 16 word list" where
  "u16_set xs i v =
     (if 0 \<le> i \<and> nat i < length xs
      then xs[nat i := (case v of None \<Rightarrow> 0 | Some n \<Rightarrow> of_nat n)]
      else xs)"

text \<open>The plain array \<open>state\<close>: reads outside give \<open>undefined\<close>, a write past the end extends.\<close>

definition arr_get :: "'a jsval list \<Rightarrow> nat option \<Rightarrow> 'a jsval" where
  "arr_get xs k = (case k of None \<Rightarrow> Undefined | Some i \<Rightarrow> if i < length xs then xs ! i else Undefined)"

definition arr_set :: "'a jsval list \<Rightarrow> nat \<Rightarrow> 'a jsval \<Rightarrow> 'a jsval list" where
  "arr_set xs i v =
     (if i < length xs then xs[i := v] else xs @ replicate (i - length xs) Undefined @ [v])"

section \<open>QuadBatch\<close>

text \<open>
  The fields of a \<open>QuadBatch\<close> as \<open>resize\<close> allocates them.  \<open>quadCapacity\<close> holds whatever
  \<open>resize\<close> stored: a number, or \<open>undefined\<close> (\<open>None\<close>).
\<close>

record 'st QuadBatch =
  order :: "16 word list"
  sourceRects :: "jsnum list"
  targetRects :: "jsnum list"
  originPoint :: "jsnum list"
  scaleFactor :: "jsnum list"
  tintColor :: "32 word list"
  orientation :: "jsnum list"
  depth :: "jsnum list"
  state :: "'st jsval list"
  quadCount :: nat
  quadCapacity :: "nat option"

text \<open>\<open>QuadBatch.MAX_CAPACITY = 65536\<close> is the only such property the source assigns.\<close>

definition QuadBatch_MAX_CAPACITY :: "nat option" where
  "QuadBatch_MAX_CAPACITY = Some 65536"

text \<open>
  \<open>resize\<close> reads \<open>QuadBatch.MAX_CAPCITY\<close> (so spelled), a property that is never assigned:
  the read yields \<open>undefined\<close>.
\<close>

definition QuadBatch_MAX_CAPCITY :: "nat option" where
  "QuadBatch_MAX_CAPCITY = None"

text \<open>The length of a typed array allocated with \<open>new T(n * k)\<close>; \<open>undefined * k\<close> gives length 0.\<close>

definition alloc_len :: "nat option \<Rightarrow> nat \<Rightarrow> nat" where
  "alloc_len c k = (case c of None \<Rightarrow> 0 | Some n \<Rightarrow> n * k)"

definition flush :: "'st QuadBatch \<Rightarrow> 'st QuadBatch" where
  "flush b = b\<lparr>quadCount := 0\<rparr>"

definition resize :: "nat \<Rightarrow> 'st QuadBatch \<Rightarrow> 'st QuadBatch" where
  "resize capacity0 b =
     (let capacity = (if js_gt (Some capacity0) QuadBatch_MAX_CAPCITY
                      then QuadBatch_MAX_CAPCITY else Some capacity0)
      in flush (b\<lparr>order := replicate (alloc_len capacity 1) 0,
                  sourceRects := replicate (alloc_len capacity 4) (Some 0),
                  targetRects := replicate (alloc_len capacity 4) (Some 0),
                  originPoint := replicate (alloc_len capacity 2) (Some 0),
                  scaleFactor := replicate (alloc_len capacity 2) (Some 0),
                  tintColor := replicate (alloc_len capacity 1) 0,
                  orientation := replicate (alloc_len capacity 1) (Some 0),
                  depth := replicate (alloc_len capacity 1) (Some 0),
                  state := replicate (alloc_len capacity 1) Undefined,
                  quadCount := 0,
                  quadCapacity := capacity\<rparr>))"

text \<open>The constructor: \<open>capacity || 2048\<close>, all fields cleared, then \<open>resize\<close>.\<close>

definition QuadBatch_new :: "nat \<Rightarrow> 'st QuadBatch" where
  "QuadBatch_new capacity =
     resize (if capacity = 0 then 2048 else capacity)
       \<lparr>order = [], sourceRects = [], targetRects = [], originPoint = [], scaleFactor = [],
        tintColor = [], orientation = [], depth = [], state = [], quadCount = 0,
        quadCapacity = None\<rparr>"

text \<open>\<open>add\<close> returns the batch and the insertion index of the new quad.\<close>

definition add ::
  "'st jsval \<Rightarrow> jsnum \<Rightarrow> jsnum \<Rightarrow> jsnum \<Rightarrow> jsnum \<Rightarrow> jsnum \<Rightarrow> jsnum \<Rightarrow> jsnum \<Rightarrow> jsnum \<Rightarrow> 32 word \<Rightarrow>
   jsnum \<Rightarrow> jsnum \<Rightarrow> jsnum \<Rightarrow> jsnum \<Rightarrow> jsnum \<Rightarrow> jsnum \<Rightarrow> 'st QuadBatch \<Rightarrow> 'st QuadBatch \<times> nat" where
  "add st x y dep originX originY scaleX scaleY orient color
       sourceX sourceY sourceWidth sourceHeight imageWidth imageHeight b =
     (let bi = quadCount b; i4 = bi * 4; i2 = bi * 2; i1 = bi;
          src = ta_set (ta_set (ta_set (ta_set (sourceRects b)
                  (i4 + 0) sourceX) (i4 + 1) sourceY) (i4 + 2) sourceWidth) (i4 + 3) sourceHeight;
          tgt = ta_set (ta_set (ta_set (ta_set (targetRects b)
                  (i4 + 0) x) (i4 + 1) y) (i4 + 2) (fmul sourceWidth scaleX))
                  (i4 + 3) (fmul sourceHeight scaleY);
          org = ta_set (ta_set (originPoint b) (i2 + 0) originX) (i2 + 1) originY;
          scl = ta_set (ta_set (scaleFactor b) (i2 + 0) (fdiv (Some 1) imageWidth))
                  (i2 + 1) (fdiv (Some 1) imageHeight)
      in (b\<lparr>sourceRects := src, targetRects := tgt, originPoint := org, scaleFactor := scl,
            tintColor := ta_set (tintColor b) i1 color,
            orientation := ta_set (orientation b) i1 orient,
            depth := ta_set (depth b) i1 dep,
            state := arr_set (state b) i1 st,
            order := u16_set (order b) (int i1) (Some bi),
            quadCount := bi + 1\<rparr>, bi))"

subsection \<open>Comparison policies\<close>

text \<open>
  A comparator receives the batch and two values read from \<open>order\<close> and returns a signed
  number, of which only the sign is used.
\<close>

type_synonym 'st comparator = "'st QuadBatch \<Rightarrow> nat option \<Rightarrow> nat option \<Rightarrow> int"

definition backToFront :: "'st comparator" where
  "backToFront batch ia ib =
     (let depthA = f32_get (depth batch) ia; depthB = f32_get (depth batch) ib
      in if js_lt depthA depthB then 1
         else if js_gt depthA depthB then -1
         else (if js_gt ia ib then 1 else (if js_lt ia ib then -1 else 0)))"

definition frontToBack :: "'st comparator" where
  "frontToBack batch ia ib =
     (let depthA = f32_get (depth batch) ia; depthB = f32_get (depth batch) ib
      in if js_lt depthA depthB then -1
         else if js_gt depthA depthB then 1
         else (if js_gt ia ib then 1 else (if js_lt ia ib then -1 else 0)))"

subsection \<open>Heap sort over the order array\<close>

text \<open>
  The \<open>while\<close> loop of \<open>siftDown\<close>.  It need not end: with a comparator that answers
  \<open>compare(x, x) < 0\<close> the root is swapped with itself for ever, so the loop is a partial
  function and \<open>None\<close> stands for a call that does not return.
\<close>

partial_function (option) siftDown_loop ::
  "'st comparator \<Rightarrow> int \<Rightarrow> int \<Rightarrow> 'st QuadBatch \<Rightarrow> 'st QuadBatch option" where
  "siftDown_loop compare e rootI b =
     (if js_shl rootI 1 \<le> e then
        (let child0 = js_shl rootI 1;
             child = (if child0 < e \<and>
                         compare b (u16_get (order b) child0) (u16_get (order b) (child0 + 1)) < 0
                      then child0 + 1 else child0)
         in if compare b (u16_get (order b) rootI) (u16_get (order b) child) < 0
            then (let temp = u16_get (order b) child;
                      a1 = u16_set (order b) child (u16_get (order b) rootI);
                      a2 = u16_set a1 rootI temp
                  in siftDown_loop compare e child (b\<lparr>order := a2\<rparr>))
            else Some b)
      else Some b)"

declare siftDown_loop.simps [code]

definition siftDown :: "int \<Rightarrow> int \<Rightarrow> 'st comparator \<Rightarrow> 'st QuadBatch \<Rightarrow> 'st QuadBatch option" where
  "siftDown s e compare b = siftDown_loop compare e s b"

text \<open>The loop of \<open>heapify\<close>: \<open>while (s >= 0) this.siftDown(s--, c - 1, compare)\<close>.\<close>

function heapify_loop ::
  "'st comparator \<Rightarrow> int \<Rightarrow> int \<Rightarrow> 'st QuadBatch \<Rightarrow> 'st QuadBatch option" where
  "heapify_loop compare c s b =
     (if s \<ge> 0 then
        (case siftDown s (c - 1) compare b of
           None \<Rightarrow> None
         | Some b' \<Rightarrow> heapify_loop compare c (s - 1) b')
      else Some b)"
  by pat_completeness auto
termination
  by (relation "measure (\<lambda>(compare, c, s, b). nat (s + 1))") auto

declare heapify_loop.simps [simp del]

definition heapify :: "'st comparator \<Rightarrow> 'st QuadBatch \<Rightarrow> 'st QuadBatch option" where
  "heapify compare b =
     (let c = int (quadCount b); s = js_sar c 1 in heapify_loop compare c s b)"

text \<open>The loop of \<open>sort\<close>: swap the first and the last element, then \<open>siftDown(0, --e)\<close>.\<close>

function sort_loop :: "'st comparator \<Rightarrow> int \<Rightarrow> 'st QuadBatch \<Rightarrow> 'st QuadBatch option" where
  "sort_loop compare e b =
     (if e > 0 then
        (let t = u16_get (order b) 0;
             a1 = u16_set (order b) 0 (u16_get (order b) e);
             a2 = u16_set a1 e t
         in case siftDown 0 (e - 1) compare (b\<lparr>order := a2\<rparr>) of
              None \<Rightarrow> None
            | Some b' \<Rightarrow> sort_loop compare (e - 1) b')
      else Some b)"
  by pat_completeness auto
termination
  by (relation "measure (\<lambda>(compare, e, b). nat e)") auto

declare sort_loop.simps [simp del]

text \<open>\<open>QuadBatch.prototype.sort\<close>, named \<open>sort_batch\<close> here.\<close>

definition sort_batch :: "'st comparator \<Rightarrow> 'st QuadBatch \<Rightarrow> 'st QuadBatch option" where
  "sort_batch compare b =
     (case heapify compare b of
        None \<Rightarrow> None
      | Some b' \<Rightarrow> sort_loop compare (int (quadCount b') - 1) b')"


subsection \<open>A batch of three quads\<close>

text \<open>
  A unit sprite of the given depth, added with no rotation and a white tint, and the batch
  of capacity three that holds three of them with depths 3, 1 and 2, in that order.
\<close>

definition add_sprite :: "jsnum \<Rightarrow> unit QuadBatch \<Rightarrow> unit QuadBatch" where
  "add_sprite d b =
     fst (add (Val ()) (Some 0) (Some 0) d (Some 0) (Some 0) (Some 1) (Some 1) (Some 0)
            0xFFFFFFFF (Some 0) (Some 0) (Some 1) (Some 1) (Some 1) (Some 1) b)"

definition three_quads :: "unit QuadBatch" where
  "three_quads = add_sprite (Some 2) (add_sprite (Some 1) (add_sprite (Some 3) (QuadBatch_new 3)))"

text \<open>The same three quads in a batch of capacity four, which they do not fill.\<close>

definition three_of_four :: "unit QuadBatch" where
  "three_of_four = add_sprite (Some 2) (add_sprite (Some 1) (add_sprite (Some 3) (QuadBatch_new 4)))"

subsection \<open>Fields other than the order array\<close>

abbreviation same_attributes :: "'st QuadBatch \<Rightarrow> 'st QuadBatch \<Rightarrow> bool" where
  "same_attributes b b' \<equiv>
     sourceRects b' = sourceRects b \<and> targetRects b' = targetRects b \<and>
     originPoint b' = originPoint b \<and> scaleFactor b' = scaleFactor b \<and>
     tintColor b' = tintColor b \<and> orientation b' = orientation b \<and> depth b' = depth b \<and>
     state b' = state b \<and> quadCount b' = quadCount b \<and> quadCapacity b' = quadCapacity b"

section \<open>QuadEffect\<close>

text \<open>
  The effect talks to the graphics device and to two callbacks of the caller.  The model
  records these calls, oldest first, with their numeric arguments; what the device and the
  callbacks do with them is outside the renderer.  The contents of the staging buffers
  (\<open>vertexData\<close>, \<open>indexData\<close>) are not represented, only the calls that fill and upload
  them.
\<close>

datatype 'st gl_call =
    is_GenerateVertices: GenerateVertices rat rat rat
  | is_GenerateIndices: GenerateIndices rat rat rat
  | is_UploadArrayBufferRegion: UploadArrayBufferRegion rat rat
  | is_UploadIndexBufferRegion: UploadIndexBufferRegion rat rat
  | is_ApplyState: ApplyState "'st jsval"
  | is_DrawIndexed: DrawIndexed rat rat

text \<open>
  \<^item> \<open>GenerateVertices baseVertex offset quadCount\<close>: the call
    \<open>generateVertices(vertexView, baseVertex, batch, offset, quadCount)\<close>;
  \<^item> \<open>GenerateIndices baseIndex baseVertex quadCount\<close>: the call
    \<open>generateIndices(this.indexData, baseIndex, baseVertex, quadCount)\<close>;
  \<^item> \<open>UploadArrayBufferRegion offsetVB amountVB\<close> and \<open>UploadIndexBufferRegion offsetIB amountIB\<close>:
    the two uploads, with the byte offset and the length of the region;
  \<^item> \<open>ApplyState state1\<close>: the call \<open>applyState(this, gl, shader, state1)\<close>;
  \<^item> \<open>DrawIndexed nindex baseIndex\<close>: the call \<open>gl.drawIndexed(nindex, baseIndex)\<close>.

  The numbers of the effect are JavaScript numbers; they are rationals here, so that the
  division \<open>numVertices / 4\<close> is the exact one of the source.  \<open>vertexSize\<close> and \<open>indexSize\<close>
  are the \<open>elementSize\<close> of the two buffer proxies.
\<close>

record 'st QuadEffect =
  currentState :: "'st jsval"
  vertexSize :: rat
  indexSize :: rat
  vertexCapacity :: rat
  vertexOffset :: rat
  indexCapacity :: rat
  indexOffset :: rat
  calls :: "'st gl_call list"

text \<open>\<open>makeCurrent\<close>, as far as the effect's own fields go: it clears \<open>currentState\<close>.\<close>

definition makeCurrent :: "'st QuadEffect \<Rightarrow> 'st QuadEffect" where
  "makeCurrent eff = eff\<lparr>currentState := Null\<rparr>"

text \<open>\<open>bufferData\<close> returns the effect and the number of quads buffered.\<close>

definition bufferData ::
  "'st QuadBatch \<Rightarrow> rat \<Rightarrow> rat \<Rightarrow> 'st QuadEffect \<Rightarrow> 'st QuadEffect \<times> rat" where
  "bufferData batch offset count eff =
     (let numIndices0 = count * 6;
          numVertices0 = count * 4;
          baseIndex = indexOffset eff;
          baseVertex = vertexOffset eff;
          maxIndices = indexCapacity eff;
          maxVertices = vertexCapacity eff;
          clamp = (maxVertices < baseVertex + numVertices0);
          numVertices = (if clamp then maxVertices - baseVertex else numVertices0);
          numIndices = (if clamp then maxIndices - baseIndex else numIndices0);
          quadCount = numVertices / 4
      in if quadCount = 0 then (eff, 0)
         else
           (let offsetVB = baseVertex * vertexSize eff;
                amountVB = quadCount * vertexSize eff * 4;
                offsetIB = baseIndex * indexSize eff;
                amountIB = quadCount * 6;
                eff1 = eff\<lparr>calls := calls eff @
                         [GenerateVertices baseVertex offset quadCount,
                          GenerateIndices baseIndex baseVertex quadCount,
                          UploadArrayBufferRegion offsetVB amountVB,
                          UploadIndexBufferRegion offsetIB amountIB]\<rparr>;
                eff2 = eff1\<lparr>indexOffset := indexOffset eff1 + quadCount * 6\<rparr>;
                eff3 = eff2\<lparr>vertexOffset := vertexOffset eff2 + quadCount * 4\<rparr>;
                eff4 = (if maxVertices = vertexOffset eff3
                        then eff3\<lparr>indexOffset := 0, vertexOffset := 0\<rparr> else eff3)
            in (eff4, quadCount)))"

text \<open>The state token the loop of \<open>drawRegion\<close> reads at step \<open>i\<close>: \<open>state[order[i]]\<close>.\<close>

definition quad_state :: "'st QuadBatch \<Rightarrow> nat \<Rightarrow> 'st jsval" where
  "quad_state batch i = arr_get (state batch) (u16_get (order batch) (int i))"

text \<open>
  The \<open>for\<close> loop of \<open>drawRegion\<close>, over the locals \<open>index\<close>, \<open>state0\<close>, \<open>state1\<close>,
  \<open>baseIndex\<close> and the calls made so far.  The parameter \<open>offset\<close> of \<open>drawRegion\<close> does not
  occur in its body.
\<close>

function drawRegion_loop ::
  "'st QuadBatch \<Rightarrow> rat \<Rightarrow> nat \<Rightarrow> nat \<times> 'st jsval \<times> 'st jsval \<times> rat \<times> 'st gl_call list \<Rightarrow>
   nat \<times> 'st jsval \<times> 'st jsval \<times> rat \<times> 'st gl_call list" where
  "drawRegion_loop batch count i (index, state0, state1, baseIndex, cs) =
     (if of_nat i < count then
        (let state1' = quad_state batch i
         in if state1' \<noteq> state0 then
              (if i > index then
                 (let nquad = of_nat i - of_nat index;
                      nindex = nquad * 6
                  in drawRegion_loop batch count (i + 1)
                       (i, state1', state1', baseIndex + nindex,
                        cs @ [DrawIndexed nindex baseIndex, ApplyState state1']))
               else drawRegion_loop batch count (i + 1)
                      (i, state1', state1', baseIndex, cs @ [ApplyState state1']))
            else drawRegion_loop batch count (i + 1) (index, state0, state1', baseIndex, cs))
      else (index, state0, state1, baseIndex, cs))"
  by pat_completeness auto
termination
proof (relation "measure (\<lambda>(batch, count, i, st). nat \<lceil>count\<rceil> - i)")
  show "wf (measure (\<lambda>(batch, count :: rat, i, st :: nat \<times> 'st jsval \<times> 'st jsval \<times> rat \<times> 'st gl_call list).
          nat \<lceil>count\<rceil> - i))"
    by simp
qed (auto simp: less_ceiling_iff intro!: diff_less_mono2, linarith+)

declare drawRegion_loop.simps [simp del]

definition drawRegion ::
  "'st QuadBatch \<Rightarrow> rat \<Rightarrow> rat \<Rightarrow> rat \<Rightarrow> 'st QuadEffect \<Rightarrow> 'st QuadEffect" where
  "drawRegion batch offset count baseIndex eff =
     (case drawRegion_loop batch count 0
             (0, currentState eff, currentState eff, baseIndex, calls eff) of
        (index, state0, state1, baseIndex', cs) \<Rightarrow>
          (let nquad = count - of_nat index;
               nindex = nquad * 6
           in eff\<lparr>calls := cs @ [DrawIndexed nindex baseIndex'], currentState := state1\<rparr>))"

text \<open>
  The \<open>while\<close> loop of \<open>drawBatch\<close>.  It does not end when \<open>bufferData\<close> keeps returning 0
  (an effect whose capacity is 0), so it is a partial function.
\<close>

partial_function (option) drawBatch_loop ::
  "'st QuadBatch \<Rightarrow> rat \<Rightarrow> rat \<Rightarrow> rat \<Rightarrow> 'st QuadEffect \<Rightarrow> 'st QuadEffect option" where
  "drawBatch_loop batch baseIndex quadIndex quadCount' eff =
     (if quadCount' > 0 then
        (let r = bufferData batch quadIndex quadCount' eff;
             n = snd r;
             eff2 = drawRegion batch quadIndex n baseIndex (fst r)
         in drawBatch_loop batch (indexOffset eff2) (quadIndex + n) (quadCount' - n) eff2)
      else Some eff)"

declare drawBatch_loop.simps [code]

definition drawBatch :: "'st QuadBatch \<Rightarrow> 'st QuadEffect \<Rightarrow> 'st QuadEffect option" where
  "drawBatch batch eff =
     drawBatch_loop batch (indexOffset eff) 0 (of_nat (quadCount batch)) eff"

text \<open>
  The constructor of \<open>QuadEffect\<close> and \<open>createResources\<close>, on the fields above:
  \<open>stride\<close> is \<open>WebGL.computeBufferStride(attributes)\<close>, the element size of the vertex
  buffer; the element size of the index buffer is \<open>Uint16Array.BYTES_PER_ELEMENT = 2\<close>.
\<close>

definition QuadEffect_new :: "'st QuadEffect" where
  "QuadEffect_new =
     \<lparr>currentState = Null, vertexSize = 0, indexSize = 0, vertexCapacity = 0, vertexOffset = 0,
      indexCapacity = 0, indexOffset = 0, calls = []\<rparr>"

definition createResources :: "rat \<Rightarrow> rat \<Rightarrow> 'st QuadEffect \<Rightarrow> 'st QuadEffect" where
  "createResources stride capacity eff =
     eff\<lparr>vertexSize := stride, indexSize := 2,
         vertexCapacity := capacity * 4, indexCapacity := capacity * 6,
         vertexOffset := 0, indexOffset := 0\<rparr>"

subsection \<open>A batch of two quads with different states\<close>

definition add_textured :: "nat \<Rightarrow> nat QuadBatch \<Rightarrow> nat QuadBatch" where
  "add_textured t b =
     fst (add (Val t) (Some 0) (Some 0) (Some 0) (Some 0) (Some 0) (Some 1) (Some 1) (Some 0)
            0xFFFFFFFF (Some 0) (Some 0) (Some 1) (Some 1) (Some 1) (Some 1) b)"

definition two_states :: "nat QuadBatch" where
  "two_states = add_textured 1 (add_textured 0 (QuadBatch_new 2))"

subsection \<open>The heap shape of the order array\<close>

text \<open>
  The shape \<open>siftDown\<close> works on: the children of position \<open>r\<close> are \<open>2 r\<close> and \<open>2 r + 1\<close>, so
  the parent of \<open>k \<ge> 1\<close> is \<open>k div 2\<close> and position 0 sits above position 1.  \<open>heap_from x xs s e\<close>
  says that within \<open>xs[0..e]\<close> no element at a position whose parent is at \<open>s\<close> or later is
  ranked above its parent; \<open>heap_except\<close> leaves out the children of \<open>r\<close>, which are compared
  with the parent of \<open>r\<close> instead.
\<close>

definition heap_from :: "('a \<Rightarrow> 'k::linorder) \<Rightarrow> 'a list \<Rightarrow> nat \<Rightarrow> nat \<Rightarrow> bool" where
  "heap_from x xs s e =
     (\<forall>k. 1 \<le> k \<and> k \<le> e \<and> s \<le> k div 2 \<longrightarrow> x (xs ! k) \<le> x (xs ! (k div 2)))"

definition heap_except :: "('a \<Rightarrow> 'k::linorder) \<Rightarrow> 'a list \<Rightarrow> nat \<Rightarrow> nat \<Rightarrow> nat \<Rightarrow> bool" where
  "heap_except x xs s e r =
     ((\<forall>k. 1 \<le> k \<and> k \<le> e \<and> s \<le> k div 2 \<and> k div 2 \<noteq> r \<longrightarrow> x (xs ! k) \<le> x (xs ! (k div 2))) \<and>
      (1 \<le> r \<and> s \<le> r div 2 \<longrightarrow>
         (\<forall>k. 1 \<le> k \<and> k \<le> e \<and> k div 2 = r \<longrightarrow> x (xs ! k) \<le> x (xs ! (r div 2)))))"

subsection \<open>Batches with equal depths and with a depth that is not a number\<close>

text \<open>
  Four quads with depths 1, 2, 1, 2, and six quads with depths 0, 1, 1, \<open>NaN\<close>, 1, 2, each
  added to a fresh batch of just that capacity.
\<close>

definition tied_quads :: "unit QuadBatch" where
  "tied_quads =
     add_sprite (Some 2) (add_sprite (Some 1) (add_sprite (Some 2) (add_sprite (Some 1)
       (QuadBatch_new 4))))"

definition nan_quads :: "unit QuadBatch" where
  "nan_quads =
     add_sprite (Some 2) (add_sprite (Some 1) (add_sprite None (add_sprite (Some 1)
       (add_sprite (Some 1) (add_sprite (Some 0) (QuadBatch_new 6))))))"

subsection \<open>A batch filled by repeated add\<close>

definition add_sprites :: "nat \<Rightarrow> unit QuadBatch \<Rightarrow> unit QuadBatch" where
  "add_sprites k b = (add_sprite (Some 0) ^^ k) b"

section \<open>QuadVertex.ptcg\<close>


datatype vertex_write =
    is_WritePTX: WritePTX nat jsnum
  | is_WriteCLR: WriteCLR nat "32 word"
  | is_WriteATR: WriteATR nat jsnum








section \<open>Properties of QuadBatch\<close>

subsection \<open>The shifts on small numbers\<close>

lemma sint_small:
  "- (2 ^ 31) \<le> x \<Longrightarrow> x < 2 ^ 31 \<Longrightarrow> sint (word_of_int x :: 32 word) = x"
  by (simp add: signed_of_int signed_take_bit_int_eq_self)

lemma js_shl_small: "0 \<le> x \<Longrightarrow> x < 2 ^ 30 \<Longrightarrow> js_shl x 1 = 2 * x"
proof -
  assume a: "0 \<le> x" "x < 2 ^ 30"
  have "push_bit 1 (word_of_int x :: 32 word) = word_of_int (2 * x)"
    by (simp add: push_bit_eq_mult)
  moreover have "sint (word_of_int (2 * x) :: 32 word) = 2 * x"
    using a by (intro sint_small) auto
  ultimately show ?thesis by (simp only: js_shl_def)
qed

lemma js_sar_small: "0 \<le> x \<Longrightarrow> x < 2 ^ 31 \<Longrightarrow> js_sar x 1 = x div 2"
  unfolding js_sar_def
  by (simp add: sint_signed_drop_bit_eq drop_bit_eq_div sint_small)

subsection \<open>The capacity clamp of resize\<close>

lemma resize_sizes:
  "quadCapacity (resize c b) = Some c \<and> quadCount (resize c b) = 0 \<and>
   length (order (resize c b)) = c \<and> length (sourceRects (resize c b)) = c * 4 \<and>
   length (targetRects (resize c b)) = c * 4 \<and> length (originPoint (resize c b)) = c * 2 \<and>
   length (scaleFactor (resize c b)) = c * 2 \<and> length (tintColor (resize c b)) = c \<and>
   length (orientation (resize c b)) = c \<and> length (depth (resize c b)) = c \<and>
   length (state (resize c b)) = c"
  by (simp add: resize_def flush_def js_gt_def js_lt_def QuadBatch_MAX_CAPCITY_def alloc_len_def)

text \<open>
  C8.  \<open>resize\<close> compares the request with \<open>QuadBatch.MAX_CAPCITY\<close>, which is undefined, so
  the comparison is false and nothing is clamped: a request for 65537 quads allocates every
  array for 65537 quads, one more than \<open>MAX_CAPACITY = 65536\<close>.  The batch is reset to empty.
\<close>

theorem resize_above_max_not_clamped:
  "QuadBatch_MAX_CAPACITY = Some 65536 \<and>
   quadCapacity (resize 65537 b) = Some 65537 \<and> quadCount (resize 65537 b) = 0 \<and>
   length (order (resize 65537 b)) = 65537 \<and> length (sourceRects (resize 65537 b)) = 65537 * 4 \<and>
   length (targetRects (resize 65537 b)) = 65537 * 4 \<and>
   length (originPoint (resize 65537 b)) = 65537 * 2 \<and>
   length (scaleFactor (resize 65537 b)) = 65537 * 2 \<and>
   length (tintColor (resize 65537 b)) = 65537 \<and> length (orientation (resize 65537 b)) = 65537 \<and>
   length (depth (resize 65537 b)) = 65537 \<and> length (state (resize 65537 b)) = 65537"
  using resize_sizes [of 65537 b] by (simp add: QuadBatch_MAX_CAPACITY_def)

subsection \<open>Sorting touches the order array only\<close>

lemma siftDown_loop_frame:
  "siftDown_loop compare e r b = Some b' \<Longrightarrow> b' = b\<lparr>order := order b'\<rparr>"
proof (erule siftDown_loop.raw_induct [rotated], goal_cases)
  case (1 f compare e r b b')
  show ?case
  proof (cases "b' = b")
    case True
    then show ?thesis by simp
  next
    case False
    with 1(2) obtain c xs where "f compare e c (b\<lparr>order := xs\<rparr>) = Some b'"
      by (auto simp: Let_def split: if_splits)
    from 1(1) [OF this] have "b' = b\<lparr>order := xs, order := order b'\<rparr>" by simp
    then show ?thesis by simp
  qed
qed

lemma siftDown_frame:
  "siftDown s e compare b = Some b' \<Longrightarrow> b' = b\<lparr>order := order b'\<rparr>"
  unfolding siftDown_def by (rule siftDown_loop_frame)

lemma heapify_loop_frame:
  "heapify_loop compare c s b = Some b' \<Longrightarrow> b' = b\<lparr>order := order b'\<rparr>"
proof (induction compare c s b rule: heapify_loop.induct)
  case (1 compare c s b)
  show ?case
  proof (cases "s \<ge> 0")
    case True
    with "1.prems" obtain b1 where s: "siftDown s (c - 1) compare b = Some b1"
      and h: "heapify_loop compare c (s - 1) b1 = Some b'"
      by (subst (asm) heapify_loop.simps) (auto split: option.splits)
    from "1.IH" [OF True s h] have "b' = b1\<lparr>order := order b'\<rparr>" .
    moreover from siftDown_frame [OF s] have "b1 = b\<lparr>order := order b1\<rparr>" .
    ultimately have "b' = b\<lparr>order := order b1, order := order b'\<rparr>" by simp
    then show ?thesis by simp
  next
    case False
    with "1.prems" show ?thesis by (subst (asm) heapify_loop.simps) simp
  qed
qed

lemma heapify_frame:
  "heapify compare b = Some b' \<Longrightarrow> b' = b\<lparr>order := order b'\<rparr>"
  unfolding heapify_def Let_def by (rule heapify_loop_frame)

lemma sort_loop_frame:
  "sort_loop compare e b = Some b' \<Longrightarrow> b' = b\<lparr>order := order b'\<rparr>"
proof (induction compare e b rule: sort_loop.induct)
  case (1 compare e b)
  show ?case
  proof (cases "e > 0")
    case True
    define a2 where "a2 = u16_set (u16_set (order b) 0 (u16_get (order b) e)) e (u16_get (order b) 0)"
    from True "1.prems" obtain b1 where s: "siftDown 0 (e - 1) compare (b\<lparr>order := a2\<rparr>) = Some b1"
      and h: "sort_loop compare (e - 1) b1 = Some b'"
      by (subst (asm) sort_loop.simps) (auto simp: a2_def Let_def split: option.splits)
    from "1.IH" [OF True refl refl refl, folded a2_def, OF s h] have "b' = b1\<lparr>order := order b'\<rparr>" .
    moreover from siftDown_frame [OF s] have "b1 = b\<lparr>order := a2, order := order b1\<rparr>" .
    ultimately have "b' = b\<lparr>order := a2, order := order b1, order := order b'\<rparr>" by simp
    then show ?thesis by simp
  next
    case False
    with "1.prems" show ?thesis by (subst (asm) sort_loop.simps) simp
  qed
qed

lemma sort_frame:
  "sort_batch compare b = Some b' \<Longrightarrow> b' = b\<lparr>order := order b'\<rparr>"
proof -
  assume "sort_batch compare b = Some b'"
  then obtain b1 where h: "heapify compare b = Some b1"
    and l: "sort_loop compare (int (quadCount b1) - 1) b1 = Some b'"
    by (auto simp: sort_batch_def split: option.splits)
  from sort_loop_frame [OF l] have "b' = b1\<lparr>order := order b'\<rparr>" .
  moreover from heapify_frame [OF h] have "b1 = b\<lparr>order := order b1\<rparr>" .
  ultimately have "b' = b\<lparr>order := order b1, order := order b'\<rparr>" by simp
  then show ?thesis by simp
qed

lemma order_update_same_attributes: "b' = b\<lparr>order := xs\<rparr> \<Longrightarrow> same_attributes b b'"
  by simp

lemma siftDown_loop_returns:
  assumes irrefl: "\<forall>b x. \<not> compare b x x < 0"
  shows "0 \<le> r \<Longrightarrow> r < 2 ^ 30 \<Longrightarrow> e < 2 ^ 30 \<Longrightarrow> \<exists>b'. siftDown_loop compare e r b = Some b'"
proof (induction "nat (e + 1 - r)" arbitrary: r b rule: less_induct)
  case less
  have shl: "js_shl r (Suc 0) = 2 * r" using less.prems js_shl_small [of r] by simp
  show ?case
  proof (cases "2 * r \<le> e")
    case False
    then show ?thesis by (subst siftDown_loop.simps) (simp add: shl)
  next
    case True
    define child where "child = (if 2 * r < e \<and>
        compare b (u16_get (order b) (2 * r)) (u16_get (order b) (2 * r + 1)) < 0
        then 2 * r + 1 else 2 * r)"
    show ?thesis
    proof (cases "compare b (u16_get (order b) r) (u16_get (order b) child) < 0")
      case False
      then show ?thesis using True
        by (subst siftDown_loop.simps) (simp add: shl child_def Let_def)
    next
      case swap: True
      have "child \<noteq> r" using swap irrefl by auto
      then have c: "r < child" "child \<le> e" using True less.prems(1)
        by (auto simp: child_def split: if_splits)
      define b1 where "b1 = b\<lparr>order := u16_set (u16_set (order b) child (u16_get (order b) r)) r
                                (u16_get (order b) child)\<rparr>"
      have "nat (e + 1 - child) < nat (e + 1 - r)" using c by simp
      from less.hyps [OF this, of b1] c less.prems
      obtain b' where "siftDown_loop compare e child b1 = Some b'" by auto
      then show ?thesis using True swap
        by (subst siftDown_loop.simps) (simp add: shl child_def [symmetric] Let_def b1_def)
    qed
  qed
qed

lemma heapify_loop_returns:
  "\<forall>b x. \<not> compare b x x < 0 \<Longrightarrow> s < 2 ^ 30 \<Longrightarrow> c \<le> 2 ^ 30 \<Longrightarrow>
   \<exists>b'. heapify_loop compare c s b = Some b'"
proof (induction compare c s b rule: heapify_loop.induct)
  case (1 compare c s b)
  show ?case
  proof (cases "s \<ge> 0")
    case False
    then show ?thesis by (subst heapify_loop.simps) simp
  next
    case True
    have "\<exists>b1. siftDown_loop compare (c - 1) s b = Some b1"
      using "1.prems" True by (intro siftDown_loop_returns) auto
    then obtain b1 where s: "siftDown s (c - 1) compare b = Some b1"
      by (auto simp: siftDown_def)
    from "1.IH" [OF True s "1.prems"(1)] "1.prems"
    obtain b' where "heapify_loop compare c (s - 1) b1 = Some b'" by auto
    then show ?thesis using True s by (subst heapify_loop.simps) simp
  qed
qed

lemma sort_loop_returns:
  "\<forall>b x. \<not> compare b x x < 0 \<Longrightarrow> e < 2 ^ 30 \<Longrightarrow> \<exists>b'. sort_loop compare e b = Some b'"
proof (induction compare e b rule: sort_loop.induct)
  case (1 compare e b)
  show ?case
  proof (cases "e > 0")
    case False
    then show ?thesis by (subst sort_loop.simps) simp
  next
    case True
    define a2 where "a2 = u16_set (u16_set (order b) 0 (u16_get (order b) e)) e (u16_get (order b) 0)"
    have "\<exists>b1. siftDown_loop compare (e - 1) 0 (b\<lparr>order := a2\<rparr>) = Some b1"
      using "1.prems" by (intro siftDown_loop_returns) auto
    then obtain b1 where s: "siftDown 0 (e - 1) compare (b\<lparr>order := a2\<rparr>) = Some b1"
      by (auto simp: siftDown_def)
    from "1.IH" [OF True refl refl refl, folded a2_def, OF s "1.prems"(1)] "1.prems"
    obtain b' where "sort_loop compare (e - 1) b1 = Some b'" by auto
    then show ?thesis using True s
      by (subst sort_loop.simps) (simp add: Let_def a2_def [symmetric])
  qed
qed

lemma sort_returns:
  assumes irrefl: "\<forall>b x. \<not> compare b x x < 0" and small: "quadCount b < 2 ^ 30"
  shows "\<exists>b'. sort_batch compare b = Some b'"
proof -
  have c: "int (quadCount b) < 2 ^ 30" using small by (simp flip: of_nat_less_iff)
  then have sar: "js_sar (int (quadCount b)) (Suc 0) = int (quadCount b) div 2"
    using js_sar_small [of "int (quadCount b)"] by simp
  have "\<exists>b1. heapify_loop compare (int (quadCount b)) (int (quadCount b) div 2) b = Some b1"
    using irrefl c by (intro heapify_loop_returns) auto
  then obtain b1 where h: "heapify compare b = Some b1"
    by (auto simp: heapify_def Let_def sar)
  from heapify_frame [OF h] have "quadCount b1 = quadCount (b\<lparr>order := order b1\<rparr>)" by simp
  then have "int (quadCount b1) - 1 < 2 ^ 30" using c by simp
  then have "\<exists>b'. sort_loop compare (int (quadCount b1) - 1) b1 = Some b'"
    using irrefl by (intro sort_loop_returns) auto
  with h show ?thesis by (auto simp: sort_batch_def)
qed

text \<open>
  C9.  A call of \<open>siftDown\<close>, \<open>heapify\<close> or \<open>sort\<close> that returns leaves every field of the
  batch except \<open>order\<close> as it was, for every comparator.  (With a comparator that never
  answers \<open>compare(x, x) < 0\<close>, and fewer than \<open>2^30\<close> quads, \<open>sort\<close> does return.)
\<close>

theorem sort_modifies_order_only:
  "(siftDown s e compare b = Some b1 \<longrightarrow> same_attributes b b1) \<and>
   (heapify compare b = Some b2 \<longrightarrow> same_attributes b b2) \<and>
   (sort_batch compare b = Some b3 \<longrightarrow> same_attributes b b3) \<and>
   ((\<forall>b x. \<not> compare b x x < 0) \<and> quadCount b < 2 ^ 30 \<longrightarrow> sort_batch compare b \<noteq> None)"
proof -
  have 1: "same_attributes b b1" if "siftDown s e compare b = Some b1"
    using order_update_same_attributes [OF siftDown_frame [OF that]] .
  have 2: "same_attributes b b2" if "heapify compare b = Some b2"
    using order_update_same_attributes [OF heapify_frame [OF that]] .
  have 3: "same_attributes b b3" if "sort_batch compare b = Some b3"
    using order_update_same_attributes [OF sort_frame [OF that]] .
  have 4: "sort_batch compare b \<noteq> None" if "(\<forall>b x. \<not> compare b x x < 0) \<and> quadCount b < 2 ^ 30"
    using that sort_returns [of compare b] by auto
  from 1 2 3 4 show ?thesis by blast
qed

lemma irrefl_backToFront: "\<not> backToFront b x x < 0"
  by (simp add: backToFront_def js_lt_def js_gt_def Let_def split: option.splits)

theorem sort_modifies_order_only_witness:
  "siftDown 0 2 backToFront three_quads \<noteq> None \<and>
   heapify backToFront three_quads \<noteq> None \<and>
   sort_batch backToFront three_quads \<noteq> None \<and>
   (\<forall>b x. \<not> backToFront (b :: unit QuadBatch) x x < 0) \<and> quadCount three_quads < 2 ^ 30 \<and>
   same_attributes three_quads (the (siftDown 0 2 backToFront three_quads)) \<and>
   same_attributes three_quads (the (heapify backToFront three_quads)) \<and>
   same_attributes three_quads (the (sort_batch backToFront three_quads))"
proof -
  have "siftDown 0 2 backToFront three_quads \<noteq> None" by code_simp
  then obtain b1 where 1: "siftDown 0 2 backToFront three_quads = Some b1" by auto
  have "heapify backToFront three_quads \<noteq> None" by code_simp
  then obtain b2 where 2: "heapify backToFront three_quads = Some b2" by auto
  have "sort_batch backToFront three_quads \<noteq> None" by code_simp
  then obtain b3 where 3: "sort_batch backToFront three_quads = Some b3" by auto
  have "quadCount three_quads = 3" by code_simp
  then have 4: "quadCount three_quads < 2 ^ 30" by simp
  show ?thesis
    using sort_modifies_order_only [of 0 2 backToFront three_quads b1 b2 b3] 1 2 3 4
    by (simp add: irrefl_backToFront)
qed

section \<open>Properties of QuadEffect\<close>

subsection \<open>The ring buffer\<close>

text \<open>
  C3.  \<open>bufferData\<close> is called with a quad count \<open>c\<close> from a state whose vertex cursor is a
  multiple of 4 below the capacity and whose index cursor is 6 for every 4 of the vertex
  cursor.  It returns \<open>q = min c ((vertexCapacity - vertexOffset) / 4)\<close>.  If \<open>q = 0\<close> the effect
  is unchanged: no cursor moves and no call is made.  Otherwise it calls the vertex and index
  generators and the two uploads once each, the vertex cursor advances by \<open>4 q\<close> and the index
  cursor by \<open>6 q\<close>, and both are reset to 0 exactly when the vertex cursor reaches the capacity.
  The state after the call satisfies the same invariant.
\<close>

theorem bufferData_ring_invariant:
  fixes eff :: "'st QuadEffect" and batch :: "'st QuadBatch" and offset :: rat and c k :: nat
  assumes "0 \<le> vertexOffset eff" and "vertexOffset eff < vertexCapacity eff"
    and "vertexOffset eff = 4 * of_nat k"
    and "indexOffset eff = 6 * (vertexOffset eff / 4)"
  shows "let q = min (of_nat c) ((vertexCapacity eff - vertexOffset eff) / 4);
             eff' = fst (bufferData batch offset (of_nat c) eff)
         in
         snd (bufferData batch offset (of_nat c) eff) = q \<and>
         (q = 0 \<longrightarrow> eff' = eff) \<and>
         (q \<noteq> 0 \<longrightarrow>
            calls eff' = calls eff @
              [GenerateVertices (vertexOffset eff) offset q,
               GenerateIndices (indexOffset eff) (vertexOffset eff) q,
               UploadArrayBufferRegion (vertexOffset eff * vertexSize eff) (q * vertexSize eff * 4),
               UploadIndexBufferRegion (indexOffset eff * indexSize eff) (q * 6)] \<and>
            (if vertexOffset eff + 4 * q = vertexCapacity eff
             then vertexOffset eff' = 0 \<and> indexOffset eff' = 0
             else vertexOffset eff' = vertexOffset eff + 4 * q \<and>
                  indexOffset eff' = indexOffset eff + 6 * q)) \<and>
         vertexCapacity eff' = vertexCapacity eff \<and> indexCapacity eff' = indexCapacity eff \<and>
         currentState eff' = currentState eff \<and>
         0 \<le> vertexOffset eff' \<and> vertexOffset eff' < vertexCapacity eff' \<and>
         (\<exists>k'::nat. vertexOffset eff' = 4 * of_nat k') \<and>
         indexOffset eff' = 6 * (vertexOffset eff' / 4)"
proof -
  define q where "q = min (of_nat c) ((vertexCapacity eff - vertexOffset eff) / 4)"
  define eff' where "eff' = fst (bufferData batch offset (of_nat c) eff)"
  have "snd (bufferData batch offset (of_nat c) eff) = q \<and>
         (q = 0 \<longrightarrow> eff' = eff) \<and>
         (q \<noteq> 0 \<longrightarrow>
            calls eff' = calls eff @
              [GenerateVertices (vertexOffset eff) offset q,
               GenerateIndices (indexOffset eff) (vertexOffset eff) q,
               UploadArrayBufferRegion (vertexOffset eff * vertexSize eff) (q * vertexSize eff * 4),
               UploadIndexBufferRegion (indexOffset eff * indexSize eff) (q * 6)] \<and>
            (if vertexOffset eff + 4 * q = vertexCapacity eff
             then vertexOffset eff' = 0 \<and> indexOffset eff' = 0
             else vertexOffset eff' = vertexOffset eff + 4 * q \<and>
                  indexOffset eff' = indexOffset eff + 6 * q)) \<and>
         vertexCapacity eff' = vertexCapacity eff \<and> indexCapacity eff' = indexCapacity eff \<and>
         currentState eff' = currentState eff \<and>
         0 \<le> vertexOffset eff' \<and> vertexOffset eff' < vertexCapacity eff' \<and>
         (\<exists>k'::nat. vertexOffset eff' = 4 * of_nat k') \<and>
         indexOffset eff' = 6 * (vertexOffset eff' / 4)" (is ?goal)
proof (cases "vertexCapacity eff < vertexOffset eff + of_nat c * 4")
  case True
  then have q: "q = (vertexCapacity eff - vertexOffset eff) / 4"
    by (auto simp: q_def min_def field_simps)
  have "q \<noteq> 0" using assms(2) q by simp
  moreover have "\<exists>k'::nat. (0::rat) = 4 * of_nat k'" by (rule exI [of _ 0]) simp
  ultimately show ?thesis using True assms(1-4) q
    by (simp add: eff'_def bufferData_def Let_def diff_divide_distrib)
next
  case False
  then have q: "q = of_nat c" by (auto simp: q_def min_def field_simps)
  have ex0: "\<exists>k'::nat. (0::rat) = 4 * of_nat k'" by (rule exI [of _ 0]) simp
  have exk: "\<exists>k'::nat. vertexOffset eff + 4 * of_nat c = 4 * of_nat k'"
    using assms(3) by (intro exI [of _ "k + c"]) simp
  have exk0: "\<exists>k'::nat. vertexOffset eff = 4 * of_nat k'" using assms(3) by blast
  show ?thesis
  proof (cases "c = 0")
    case True
    then show ?thesis using assms(1-4) q exk0 False
      by (simp add: eff'_def bufferData_def Let_def)
  next
    case c: False
    show ?thesis
    proof (cases "vertexCapacity eff = vertexOffset eff + of_nat c * 4")
      case True
      then show ?thesis using assms(1-4) q ex0 c False
        by (simp add: eff'_def bufferData_def Let_def)
    next
      case ne: False
      then show ?thesis using assms(1-4) q exk c False
        by (simp add: eff'_def bufferData_def Let_def algebra_simps)
    qed
  qed
qed
  then show ?thesis unfolding q_def eff'_def Let_def .
qed


theorem bufferData_ring_invariant_witness:
  "(let eff = (createResources 32 2 QuadEffect_new :: unit QuadEffect)
              \<lparr>vertexOffset := 4, indexOffset := 6\<rparr>
    in 0 \<le> vertexOffset eff \<and> vertexOffset eff < vertexCapacity eff \<and>
       vertexOffset eff = 4 * of_nat (1::nat) \<and> indexOffset eff = 6 * (vertexOffset eff / 4) \<and>
       snd (bufferData three_quads 0 (of_nat (3::nat)) eff) = 1 \<and>
       vertexOffset (fst (bufferData three_quads 0 (of_nat (3::nat)) eff)) = 0 \<and>
       indexOffset (fst (bufferData three_quads 0 (of_nat (3::nat)) eff)) = 0)"
  using bufferData_ring_invariant
    [where eff = "(createResources 32 2 QuadEffect_new :: unit QuadEffect)\<lparr>vertexOffset := 4, indexOffset := 6\<rparr>"
       and k = 1 and batch = three_quads and offset = 0 and c = 3]
  by (simp add: createResources_def QuadEffect_new_def Let_def)

subsection \<open>Draw calls of a batch that fits the ring\<close>

lemma drawRegion_loop_draws:
  "index < i \<Longrightarrow> stA = quad_state batch (i - 1) \<Longrightarrow>
   \<exists>index' s0' s1' bi' new.
     drawRegion_loop batch (of_nat N) i (index, stA, stB, bi, cs)
       = (index', s0', s1', bi', cs @ new) \<and>
     length (filter is_DrawIndexed new)
       = length (filter (\<lambda>j. quad_state batch j \<noteq> quad_state batch (j - 1)) [i..<N])"
proof (induction "N - i" arbitrary: i index stA stB bi cs)
  case 0
  then have "\<not> i < N" by simp
  then show ?case by (subst drawRegion_loop.simps) simp
next
  case (Suc d)
  then have lt: "i < N" and d: "d = N - Suc i" by auto
  have upt: "[i..<N] = i # [Suc i..<N]" using lt by (simp add: upt_conv_Cons)
  show ?case
  proof (cases "quad_state batch i = stA")
    case True
    have "\<exists>index' s0' s1' bi' new.
      drawRegion_loop batch (of_nat N) (Suc i) (index, stA, quad_state batch i, bi, cs)
         = (index', s0', s1', bi', cs @ new) \<and>
      length (filter is_DrawIndexed new)
         = length (filter (\<lambda>j. quad_state batch j \<noteq> quad_state batch (j - 1)) [Suc i..<N])"
      using Suc.prems True d by (intro Suc.hyps(1)) auto
    then obtain index' s0' s1' bi' new where
      "drawRegion_loop batch (of_nat N) (Suc i) (index, stA, quad_state batch i, bi, cs)
         = (index', s0', s1', bi', cs @ new)"
      "length (filter is_DrawIndexed new)
         = length (filter (\<lambda>j. quad_state batch j \<noteq> quad_state batch (j - 1)) [Suc i..<N])"
      by blast
    then show ?thesis using lt True Suc.prems
      by (subst drawRegion_loop.simps) (simp add: upt Let_def)
  next
    case False
    define cs1 where "cs1 = cs @ [DrawIndexed ((of_nat i - of_nat index) * 6) bi,
                                  ApplyState (quad_state batch i)]"
    have "\<exists>index' s0' s1' bi' new. drawRegion_loop batch (of_nat N) (Suc i)
         (i, quad_state batch i, quad_state batch i, bi + (of_nat i - of_nat index) * 6, cs1)
         = (index', s0', s1', bi', cs1 @ new) \<and>
       length (filter is_DrawIndexed new)
         = length (filter (\<lambda>j. quad_state batch j \<noteq> quad_state batch (j - 1)) [Suc i..<N])"
      using d by (intro Suc.hyps(1)) auto
    then obtain index' s0' s1' bi' new where
      l: "drawRegion_loop batch (of_nat N) (Suc i)
         (i, quad_state batch i, quad_state batch i, bi + (of_nat i - of_nat index) * 6, cs1)
         = (index', s0', s1', bi', cs1 @ new)"
      and n: "length (filter is_DrawIndexed new)
         = length (filter (\<lambda>j. quad_state batch j \<noteq> quad_state batch (j - 1)) [Suc i..<N])"
      by blast
    have "drawRegion_loop batch (of_nat N) i (index, stA, stB, bi, cs)
            = (index', s0', s1', bi', cs @ ([DrawIndexed ((of_nat i - of_nat index) * 6) bi,
                                  ApplyState (quad_state batch i)] @ new))"
      using lt False Suc.prems l
      by (subst drawRegion_loop.simps) (simp add: Let_def cs1_def)
    moreover have "length (filter is_DrawIndexed ([DrawIndexed ((of_nat i - of_nat index) * 6) bi,
                                  ApplyState (quad_state batch i)] @ new))
         = length (filter (\<lambda>j. quad_state batch j \<noteq> quad_state batch (j - 1)) [i..<N])"
      using n False Suc.prems by (simp add: upt)
    ultimately show ?thesis by blast
  qed
qed

lemma drawRegion_draws:
  assumes "1 \<le> N"
  shows "\<exists>new. calls (drawRegion batch offset (of_nat N) bi eff) = calls eff @ new \<and>
     length (filter is_DrawIndexed new)
       = length (filter (\<lambda>j. quad_state batch j \<noteq> quad_state batch (j - 1)) [1..<N]) + 1"
proof -
  define pre where "pre = (if quad_state batch 0 \<noteq> currentState eff
      then [ApplyState (quad_state batch 0)] else [])"
  define s1 where "s1 = quad_state batch 0"
  have first: "drawRegion_loop batch (of_nat N) 0 (0, currentState eff, currentState eff, bi, calls eff)
      = drawRegion_loop batch (of_nat N) (Suc 0) (0, quad_state batch 0, s1, bi, calls eff @ pre)"
    using assms by (subst drawRegion_loop.simps) (simp add: Let_def pre_def s1_def)
  have pre: "filter is_DrawIndexed pre = []" by (simp add: pre_def)
  have "\<exists>index' s0' s1' bi' new.
     drawRegion_loop batch (of_nat N) (Suc 0) (0, quad_state batch 0, s1, bi, calls eff @ pre)
       = (index', s0', s1', bi', (calls eff @ pre) @ new) \<and>
     length (filter is_DrawIndexed new)
       = length (filter (\<lambda>j. quad_state batch j \<noteq> quad_state batch (j - 1)) [1..<N])"
    using drawRegion_loop_draws [where index = 0 and i = "Suc 0" and batch = batch and N = N
        and stA = "quad_state batch 0" and stB = s1 and bi = bi and cs = "calls eff @ pre"]
    by simp
  then obtain index' s0' s1' bi' new where
    l: "drawRegion_loop batch (of_nat N) (Suc 0) (0, quad_state batch 0, s1, bi, calls eff @ pre)
       = (index', s0', s1', bi', (calls eff @ pre) @ new)"
    and n: "length (filter is_DrawIndexed new)
       = length (filter (\<lambda>j. quad_state batch j \<noteq> quad_state batch (j - 1)) [1..<N])"
    by blast
  have "calls (drawRegion batch offset (of_nat N) bi eff)
      = calls eff @ (pre @ new @ [DrawIndexed ((of_nat N - of_nat index') * 6) bi'])"
    by (simp add: drawRegion_def first l Let_def)
  moreover have "length (filter is_DrawIndexed (pre @ new @ [DrawIndexed ((of_nat N - of_nat index') * 6) bi']))
       = length (filter (\<lambda>j. quad_state batch j \<noteq> quad_state batch (j - 1)) [1..<N]) + 1"
    using n pre by simp
  ultimately show ?thesis by blast
qed

lemma bufferData_fits:
  assumes "vertexOffset eff = 0" "1 \<le> N" "of_nat N * 4 \<le> vertexCapacity eff"
  shows "snd (bufferData batch offset (of_nat N) eff) = of_nat N"
    and "\<exists>new. calls (fst (bufferData batch offset (of_nat N) eff)) = calls eff @ new \<and>
           filter is_DrawIndexed new = []"
  using assms by (auto simp: bufferData_def Let_def)

text \<open>
  C1.  A batch of \<open>N \<ge> 1\<close> quads is drawn by an effect whose ring cursors are at 0 and whose
  ring holds at least \<open>N\<close> quads.  Then \<open>drawBatch\<close> returns, and the calls it adds contain
  exactly \<open>K + 1\<close> calls of \<open>gl.drawIndexed\<close>, where \<open>K\<close> is the number of positions
  \<open>1 \<le> i < N\<close> at which \<open>state[order[i]]\<close> differs from \<open>state[order[i - 1]]\<close>.  This holds
  for every value of \<open>currentState\<close>, in particular after \<open>makeCurrent\<close> has reset it.
\<close>

theorem drawBatch_draw_calls:
  assumes "vertexOffset eff = 0" and "indexOffset eff = 0"
    and "quadCount batch = N" and "1 \<le> N" and "of_nat N * 4 \<le> vertexCapacity eff"
  shows "\<exists>eff' new. drawBatch batch eff = Some eff' \<and> calls eff' = calls eff @ new \<and>
     length (filter is_DrawIndexed new)
       = length (filter (\<lambda>i. quad_state batch i \<noteq> quad_state batch (i - 1)) [1..<N]) + 1"
proof -
  define eff1 where "eff1 = fst (bufferData batch 0 (of_nat N) eff)"
  define eff2 where "eff2 = drawRegion batch 0 (of_nat N) (indexOffset eff) eff1"
  from bufferData_fits [OF assms(1,4,5), of batch 0]
  obtain new1 where n: "snd (bufferData batch 0 (of_nat N) eff) = of_nat N"
    and c1: "calls eff1 = calls eff @ new1" "filter is_DrawIndexed new1 = []"
    by (auto simp: eff1_def)
  from drawRegion_draws [OF assms(4), of batch 0 "indexOffset eff" eff1]
  obtain new2 where c2: "calls eff2 = calls eff1 @ new2"
    "length (filter is_DrawIndexed new2)
       = length (filter (\<lambda>j. quad_state batch j \<noteq> quad_state batch (j - 1)) [1..<N]) + 1"
    by (auto simp: eff2_def)
  have "drawBatch batch eff = Some eff2"
    using assms(3,4) n
    apply (simp add: drawBatch_def)
    apply (subst drawBatch_loop.simps)
    apply (simp add: Let_def eff1_def [symmetric] eff2_def [symmetric])
    apply (subst drawBatch_loop.simps)
    apply simp
    done
  moreover have "calls eff2 = calls eff @ (new1 @ new2)" using c1 c2 by simp
  moreover have "length (filter is_DrawIndexed (new1 @ new2))
       = length (filter (\<lambda>j. quad_state batch j \<noteq> quad_state batch (j - 1)) [1..<N]) + 1"
    using c1 c2 by simp
  ultimately show ?thesis by blast
qed


theorem drawBatch_draw_calls_witness:
  "(let eff = makeCurrent (createResources 32 2 QuadEffect_new)
    in vertexOffset eff = 0 \<and> indexOffset eff = 0 \<and> quadCount two_states = 2 \<and>
       1 \<le> (2::nat) \<and> of_nat (2::nat) * 4 \<le> vertexCapacity eff \<and>
       (\<exists>eff' new. drawBatch two_states eff = Some eff' \<and> calls eff' = calls eff @ new \<and>
          length (filter is_DrawIndexed new) = 2))"
proof -
  define eff :: "nat QuadEffect" where "eff = makeCurrent (createResources 32 2 QuadEffect_new)"
  have h: "vertexOffset eff = 0" "indexOffset eff = 0" "of_nat (2::nat) * 4 \<le> vertexCapacity eff"
    by (simp_all add: eff_def makeCurrent_def createResources_def QuadEffect_new_def)
  have q: "quadCount two_states = 2" by code_simp
  have k: "length (filter (\<lambda>i. quad_state two_states i \<noteq> quad_state two_states (i - 1)) [1..<2]) = 1"
    by code_simp
  from drawBatch_draw_calls [OF h(1,2) q _ h(3)] k h q
  show ?thesis unfolding Let_def eff_def [symmetric] by (auto simp: numeral_2_eq_2)
qed

subsection \<open>A batch larger than the ring\<close>

lemma drawRegion_loop_uniform:
  "\<forall>j<N. quad_state batch j = s \<Longrightarrow>
   drawRegion_loop batch (of_nat N) i (index, s, stB, bi, cs)
     = (index, s, if i < N then s else stB, bi, cs)"
proof (induction "N - i" arbitrary: i stB)
  case 0
  then have "\<not> i < N" by simp
  then show ?case by (subst drawRegion_loop.simps) simp
next
  case (Suc d)
  then have lt: "i < N" and d: "d = N - Suc i" by auto
  from Suc.hyps(1) [OF d Suc.prems, of s]
  have "drawRegion_loop batch (of_nat N) (Suc i) (index, s, s, bi, cs) = (index, s, s, bi, cs)"
    by simp
  then show ?case using lt Suc.prems
    by (subst drawRegion_loop.simps) (simp add: Let_def)
qed

lemma drawRegion_uniform:
  assumes "\<forall>j<N. quad_state batch j = s" and "1 \<le> N"
  shows "drawRegion batch offset (of_nat N) bi eff
     = eff\<lparr>calls := calls eff @ (if s \<noteq> currentState eff then [ApplyState s] else [])
                         @ [DrawIndexed (of_nat N * 6) bi],
            currentState := s\<rparr>"
proof -
  have s0: "quad_state batch 0 = s" using assms by auto
  have "drawRegion_loop batch (of_nat N) 0 (0, currentState eff, currentState eff, bi, calls eff)
      = (0, s, s, bi, calls eff @ (if s \<noteq> currentState eff then [ApplyState s] else []))"
    using assms(2) s0 drawRegion_loop_uniform [OF assms(1), of "Suc 0" 0]
    by (subst drawRegion_loop.simps) (auto simp: Let_def)
  then show ?thesis by (simp add: drawRegion_def Let_def)
qed

lemma bufferData_fill:
  assumes "vertexOffset eff = 0" and "indexOffset eff = 0"
    and "vertexCapacity eff = 4 * of_nat C" and "1 \<le> C" and "C \<le> m"
  shows "bufferData batch off (of_nat m) eff
     = (eff\<lparr>calls := calls eff @
              [GenerateVertices 0 off (of_nat C), GenerateIndices 0 0 (of_nat C),
               UploadArrayBufferRegion 0 (of_nat C * vertexSize eff * 4),
               UploadIndexBufferRegion 0 (of_nat C * 6)],
            indexOffset := 0, vertexOffset := 0\<rparr>, of_nat C)"
proof (cases "C = m")
  case True
  then show ?thesis using assms by (simp add: bufferData_def Let_def)
next
  case False
  then have "C < m" using assms by simp
  then have "(4::rat) * of_nat C < of_nat m * 4"
    by (metis mult.commute mult_less_cancel_left_pos of_nat_less_iff zero_less_numeral)
  then show ?thesis using assms by (simp add: bufferData_def Let_def)
qed

lemma bufferData_one:
  assumes "vertexOffset eff = 0" and "indexOffset eff = 0"
    and "vertexCapacity eff = 4 * of_nat C" and "1 \<le> C"
  shows "bufferData batch off 1 eff
     = (eff\<lparr>calls := calls eff @
              [GenerateVertices 0 off 1, GenerateIndices 0 0 1,
               UploadArrayBufferRegion 0 (vertexSize eff * 4),
               UploadIndexBufferRegion 0 6],
            indexOffset := (if C = 1 then 0 else 6),
            vertexOffset := (if C = 1 then 0 else 4)\<rparr>, 1)"
proof (cases "C = 1")
  case True
  then show ?thesis using assms by (simp add: bufferData_def Let_def)
next
  case False
  then have "1 < C" using assms by simp
  then have "(1::rat) < of_nat C" by simp
  then show ?thesis using assms False by (simp add: bufferData_def Let_def)
qed


text \<open>
  C4.  The ring holds \<open>C \<ge> 1\<close> quads, its cursors are at 0, and the batch has \<open>2 C + 1\<close> quads
  that all carry the state \<open>s\<close>.  Then \<open>drawBatch\<close> returns after exactly three passes, which
  buffer \<open>C\<close>, \<open>C\<close> and 1 quads from the batch offsets 0, \<open>C\<close> and \<open>2 C\<close>.  Every pass starts
  at vertex 0 and index 0 of the ring, so the first two passes have filled the ring and reset
  the cursors.  Each pass issues one draw call, and the state is applied at most once.
\<close>

theorem drawBatch_ring_wrap:
  fixes C :: nat and eff :: "'st QuadEffect"
  assumes C: "1 \<le> C" and cap: "vertexCapacity eff = 4 * of_nat C"
    and vo: "vertexOffset eff = 0" and io: "indexOffset eff = 0"
    and n: "quadCount batch = 2 * C + 1"
    and uni: "\<forall>i < 2 * C + 1. quad_state batch i = s"
  shows "\<exists>eff'. drawBatch batch eff = Some eff' \<and>
     calls eff' = calls eff @
       [GenerateVertices 0 0 (of_nat C), GenerateIndices 0 0 (of_nat C),
        UploadArrayBufferRegion 0 (of_nat C * vertexSize eff * 4),
        UploadIndexBufferRegion 0 (of_nat C * 6)] @
       (if s \<noteq> currentState eff then [ApplyState s] else []) @
       [DrawIndexed (of_nat C * 6) 0,
        GenerateVertices 0 (of_nat C) (of_nat C), GenerateIndices 0 0 (of_nat C),
        UploadArrayBufferRegion 0 (of_nat C * vertexSize eff * 4),
        UploadIndexBufferRegion 0 (of_nat C * 6),
        DrawIndexed (of_nat C * 6) 0,
        GenerateVertices 0 (of_nat (2 * C)) 1, GenerateIndices 0 0 1,
        UploadArrayBufferRegion 0 (vertexSize eff * 4),
        UploadIndexBufferRegion 0 6,
        DrawIndexed 6 0] \<and>
     filter is_GenerateVertices (drop (length (calls eff)) (calls eff')) =
       [GenerateVertices 0 0 (of_nat C), GenerateVertices 0 (of_nat C) (of_nat C),
        GenerateVertices 0 (of_nat (2 * C)) 1] \<and>
     currentState eff' = s \<and>
     vertexOffset eff' = (if C = 1 then 0 else 4) \<and>
     indexOffset eff' = (if C = 1 then 0 else 6)"
proof -
  have uC: "\<forall>j<C. quad_state batch j = s" and u1: "\<forall>j<1. quad_state batch j = s"
    using uni C by auto
  define pass where "pass off = [GenerateVertices 0 off (of_nat C), GenerateIndices 0 0 (of_nat C),
        UploadArrayBufferRegion 0 (of_nat C * vertexSize eff * 4),
        UploadIndexBufferRegion 0 (of_nat C * 6) :: 'st gl_call]" for off
  define e1 where "e1 = eff\<lparr>calls := calls eff @ pass 0, indexOffset := 0, vertexOffset := 0\<rparr>"
  define e2 where "e2 = e1\<lparr>calls := calls e1 @ (if s \<noteq> currentState eff then [ApplyState s] else [])
                         @ [DrawIndexed (of_nat C * 6) 0], currentState := s\<rparr>"
  define e3 where "e3 = e2\<lparr>calls := calls e2 @ pass (of_nat C), indexOffset := 0, vertexOffset := 0\<rparr>"
  define e4 where "e4 = e3\<lparr>calls := calls e3 @ [DrawIndexed (of_nat C * 6) 0], currentState := s\<rparr>"
  define e5 where "e5 = e4\<lparr>calls := calls e4 @
              [GenerateVertices 0 (of_nat (2 * C)) 1, GenerateIndices 0 0 1,
               UploadArrayBufferRegion 0 (vertexSize eff * 4),
               UploadIndexBufferRegion 0 6],
            indexOffset := (if C = 1 then 0 else 6),
            vertexOffset := (if C = 1 then 0 else 4)\<rparr>"
  define e6 where "e6 = e5\<lparr>calls := calls e5 @ [DrawIndexed 6 0], currentState := s\<rparr>"
  have b1: "bufferData batch 0 (of_nat (2 * C + 1)) eff = (e1, of_nat C)"
    using bufferData_fill [OF vo io cap C, of "2 * C + 1" batch 0]
    by (simp add: e1_def pass_def)
  have d1: "drawRegion batch 0 (of_nat C) 0 e1 = e2"
    using drawRegion_uniform [OF uC C, of 0 0 e1] by (simp add: e2_def e1_def)
  have b2: "bufferData batch (of_nat C) (of_nat (C + 1)) e2 = (e3, of_nat C)"
    using bufferData_fill [of e2 C "C + 1" batch "of_nat C"] C cap
    by (simp add: e3_def e2_def e1_def pass_def)
  have d2: "drawRegion batch (of_nat C) (of_nat C) 0 e3 = e4"
    using drawRegion_uniform [OF uC C, of "of_nat C" 0 e3]
    by (simp add: e4_def e3_def e2_def)
  have b3: "bufferData batch (of_nat (2 * C)) 1 e4 = (e5, 1)"
    using bufferData_one [of e4 C batch "of_nat (2 * C)"] C cap
    by (simp add: e5_def e4_def e3_def e2_def e1_def)
  have d3: "drawRegion batch (of_nat (2 * C)) 1 (indexOffset e4) e5 = e6"
    using drawRegion_uniform [OF u1, of "of_nat (2 * C)" 0 e5]
    by (simp add: e6_def e5_def e4_def e3_def)
  have a1: "rat_of_nat (2 * C + 1) - of_nat C = of_nat (C + 1)"
    and a2: "rat_of_nat (C + 1) - of_nat C = 1"
    and a3: "rat_of_nat C + of_nat C = of_nat (2 * C)"
    and p1: "rat_of_nat (2 * C + 1) > 0" and p2: "rat_of_nat (C + 1) > 0"
    by simp_all
  have i2: "indexOffset e2 = 0" and i4: "indexOffset e4 = 0"
    by (simp_all add: e4_def e3_def e2_def e1_def)
  have s1: "drawBatch_loop batch 0 0 (of_nat (2 * C + 1)) eff
      = drawBatch_loop batch 0 (of_nat C) (of_nat (C + 1)) e2"
    by (subst drawBatch_loop.simps)
      (simp only: b1 Let_def fst_conv snd_conv d1 a1 p1 i2 if_True add_0)
  have s2: "drawBatch_loop batch 0 (of_nat C) (of_nat (C + 1)) e2
      = drawBatch_loop batch 0 (of_nat (2 * C)) 1 e4"
    by (subst drawBatch_loop.simps)
      (simp only: b2 Let_def fst_conv snd_conv d2 a2 a3 p2 i4 if_True)
  have s3: "drawBatch_loop batch 0 (of_nat (2 * C)) 1 e4 = drawBatch_loop batch (indexOffset e6) (of_nat (2 * C) + 1) 0 e6"
    by (subst drawBatch_loop.simps)
      (simp only: b3 Let_def fst_conv snd_conv d3 [unfolded i4] zero_less_one if_True diff_self)
  have s4: "drawBatch_loop batch (indexOffset e6) (of_nat (2 * C) + 1) 0 e6 = Some e6"
    by (subst drawBatch_loop.simps) simp
  have "drawBatch batch eff = Some e6"
    by (simp only: drawBatch_def io n s1 s2 s3 s4)
  moreover have "calls e6 = calls eff @ pass 0 @
       (if s \<noteq> currentState eff then [ApplyState s] else []) @
       [DrawIndexed (of_nat C * 6) 0] @ pass (of_nat C) @
       [DrawIndexed (of_nat C * 6) 0,
        GenerateVertices 0 (of_nat (2 * C)) 1, GenerateIndices 0 0 1,
        UploadArrayBufferRegion 0 (vertexSize eff * 4),
        UploadIndexBufferRegion 0 6,
        DrawIndexed 6 0]"
    by (simp add: e6_def e5_def e4_def e3_def e2_def e1_def)
  moreover have "currentState e6 = s" "vertexOffset e6 = (if C = 1 then 0 else 4)"
    "indexOffset e6 = (if C = 1 then 0 else 6)"
    by (simp_all add: e6_def e5_def)
  ultimately show ?thesis by (simp add: pass_def)
qed


theorem drawBatch_ring_wrap_witness:
  "(let eff = makeCurrent (createResources 32 1 QuadEffect_new)
    in 1 \<le> (1::nat) \<and> vertexCapacity eff = 4 * of_nat (1::nat) \<and> vertexOffset eff = 0 \<and>
       indexOffset eff = 0 \<and> quadCount three_quads = 2 * 1 + 1 \<and>
       quad_state three_quads 0 = Val () \<and> quad_state three_quads 1 = Val () \<and>
       quad_state three_quads 2 = Val () \<and>
       (\<exists>eff'. drawBatch three_quads eff = Some eff' \<and>
          filter is_GenerateVertices (calls eff') =
            [GenerateVertices 0 0 1, GenerateVertices 0 1 1, GenerateVertices 0 2 1] \<and>
          filter is_DrawIndexed (calls eff') =
            [DrawIndexed 6 0, DrawIndexed 6 0, DrawIndexed 6 0] \<and>
          vertexOffset eff' = 0 \<and> indexOffset eff' = 0))"
proof -
  define eff :: "unit QuadEffect" where "eff = makeCurrent (createResources 32 1 QuadEffect_new)"
  have h: "vertexCapacity eff = 4 * of_nat (1::nat)" "vertexOffset eff = 0" "indexOffset eff = 0"
    "calls eff = []" "currentState eff = Null" "vertexSize eff = 32"
    by (simp_all add: eff_def makeCurrent_def createResources_def QuadEffect_new_def)
  have q: "quadCount three_quads = 2 * 1 + 1" by code_simp
  have s: "quad_state three_quads 0 = Val ()" "quad_state three_quads 1 = Val ()"
    "quad_state three_quads 2 = Val ()" by code_simp+
  have "i = 0 \<or> i = 1 \<or> i = 2" if "i < 2 * 1 + 1" for i :: nat using that by auto
  with s have u: "\<forall>i < 2 * 1 + 1. quad_state three_quads i = Val ()" by auto
  from drawBatch_ring_wrap [OF _ h(1,2,3) q u] h q s
  show ?thesis unfolding Let_def eff_def [symmetric] by auto
qed

subsection \<open>The offset of a pass is not used by drawRegion\<close>

lemma drawRegion_ignores_offset:
  "drawRegion batch offset count baseIndex eff = drawRegion batch 0 count baseIndex eff"
  by (simp add: drawRegion_def)

text \<open>
  C2.  A ring of one quad draws the batch of two quads with states 0 and 1 in two passes.
  The second pass buffers the quad at offset 1, whose state is 1, but \<open>drawRegion\<close> reads
  \<open>state[order[0]]\<close> again: state 1 is never applied, and \<open>currentState\<close> is left at 0.
\<close>

theorem drawBatch_second_pass_reads_first_quad:
  "quad_state two_states 0 = Val 0 \<and> quad_state two_states 1 = Val 1 \<and>
   map_option calls (drawBatch two_states (makeCurrent (createResources 32 1 QuadEffect_new))) =
     Some [GenerateVertices 0 0 1, GenerateIndices 0 0 1,
           UploadArrayBufferRegion 0 128, UploadIndexBufferRegion 0 6,
           ApplyState (Val 0), DrawIndexed 6 0,
           GenerateVertices 0 1 1, GenerateIndices 0 0 1,
           UploadArrayBufferRegion 0 128, UploadIndexBufferRegion 0 6,
           DrawIndexed 6 0] \<and>
   map_option currentState (drawBatch two_states (makeCurrent (createResources 32 1 QuadEffect_new))) =
     Some (Val 0)"
  by code_simp

section \<open>Correctness of the heap sort\<close>

lemma heap_except_done:
  "heap_except x xs s e r \<Longrightarrow>
   (\<forall>k. 1 \<le> k \<and> k \<le> e \<and> k div 2 = r \<longrightarrow> x (xs ! k) \<le> x (xs ! r)) \<Longrightarrow> heap_from x xs s e"
  unfolding heap_except_def heap_from_def by metis

lemma heap_from_except:
  "heap_from x xs (Suc s) e \<Longrightarrow> heap_except x xs s e s"
  unfolding heap_except_def heap_from_def
  by (auto simp: Suc_le_eq le_less)

lemma heap_except_swap:
  fixes x :: "'a \<Rightarrow> 'k::linorder"
  assumes he: "heap_except x xs s e r" and sr: "s \<le> r" and e: "e < length xs"
    and c: "c div 2 = r" "c \<le> e" "c \<noteq> r"
    and big: "x (xs ! r) < x (xs ! c)"
    and sib: "\<forall>k. 1 \<le> k \<and> k \<le> e \<and> k div 2 = r \<longrightarrow> x (xs ! k) \<le> x (xs ! c)"
  shows "heap_except x (xs[c := xs ! r, r := xs ! c]) s e c"
proof -
  let ?ys = "xs[c := xs ! r, r := xs ! c]"
  have rc: "r < c" using c by (cases "c = 0") auto
  have c1: "1 \<le> c" using rc by simp
  have len: "r < length xs" "c < length xs" using rc c e by auto
  have yr: "?ys ! r = xs ! c" and yc: "?ys ! c = xs ! r" using len rc by auto
  have yo: "k \<noteq> r \<Longrightarrow> k \<noteq> c \<Longrightarrow> ?ys ! k = xs ! k" for k by auto
  have part1: "x (?ys ! k) \<le> x (?ys ! (k div 2))"
    if k: "1 \<le> k" "k \<le> e" "s \<le> k div 2" "k div 2 \<noteq> c" for k
  proof (cases "k div 2 = r")
    case True
    show ?thesis
    proof (cases "k = c")
      case True
      then show ?thesis using yr yc big c by simp
    next
      case False
      have "k \<noteq> r" using True k by (cases "r = 0") auto
      with False have "?ys ! k = xs ! k" by (simp add: yo)
      then show ?thesis using sib k True yr by simp
    qed
  next
    case False
    show ?thesis
    proof (cases "k = r")
      case True
      then have r1: "1 \<le> r" "s \<le> r div 2" using k by auto
      have "r div 2 \<noteq> r" "r div 2 \<noteq> c" using r1 rc by auto
      then have "?ys ! (r div 2) = xs ! (r div 2)" by (simp add: yo)
      moreover have "x (xs ! c) \<le> x (xs ! (r div 2))"
        using he r1 c c1 unfolding heap_except_def by blast
      ultimately show ?thesis using True yr by simp
    next
      case kr: False
      have kc: "k \<noteq> c" using False c by auto
      have "?ys ! k = xs ! k" using kr kc by (simp add: yo)
      moreover have "?ys ! (k div 2) = xs ! (k div 2)" using False k by (intro yo) auto
      moreover have "x (xs ! k) \<le> x (xs ! (k div 2))"
        using he k False unfolding heap_except_def by blast
      ultimately show ?thesis by simp
    qed
  qed
  have part2: "x (?ys ! k) \<le> x (?ys ! (c div 2))"
    if k: "1 \<le> k" "k \<le> e" "k div 2 = c" for k
  proof -
    have "c < k" using k c1 by auto
    then have "?ys ! k = xs ! k" using rc by (intro yo) auto
    moreover have "x (xs ! k) \<le> x (xs ! (k div 2))"
      using he k sr rc unfolding heap_except_def by auto
    ultimately show ?thesis using k c yr by simp
  qed
  show ?thesis unfolding heap_except_def using part1 part2 by blast
qed

lemma heap_root_max:
  fixes x :: "'a \<Rightarrow> 'k::linorder"
  shows "heap_from x xs 0 e \<Longrightarrow> k \<le> e \<Longrightarrow> x (xs ! k) \<le> x (xs ! 0)"
proof (induction k rule: less_induct)
  case (less k)
  show ?case
  proof (cases "k = 0")
    case True
    then show ?thesis by simp
  next
    case False
    then have "x (xs ! k) \<le> x (xs ! (k div 2))"
      using less.prems unfolding heap_from_def by auto
    moreover have "x (xs ! (k div 2)) \<le> x (xs ! 0)"
      using False less.prems by (intro less.IH) auto
    ultimately show ?thesis by simp
  qed
qed

lemma u16_get_nat: "k < length xs \<Longrightarrow> u16_get xs (int k) = Some (unat (xs ! k))"
  by (simp add: u16_get_def)

lemma u16_set_nat: "k < length xs \<Longrightarrow> u16_set xs (int k) (Some (unat w)) = xs[k := w]"
  by (simp add: u16_set_def)

lemma siftDown_loop_step:
  assumes r: "r < 2 ^ 30" and e: "e < length xs"
  shows "siftDown_loop cmp (int e) (int r) (b\<lparr>order := xs\<rparr>) =
     (if 2 * r \<le> e then
        (let c = (if 2 * r < e \<and>
                     cmp (b\<lparr>order := xs\<rparr>) (Some (unat (xs ! (2 * r))))
                         (Some (unat (xs ! (2 * r + 1)))) < 0
                  then 2 * r + 1 else 2 * r)
         in if cmp (b\<lparr>order := xs\<rparr>) (Some (unat (xs ! r))) (Some (unat (xs ! c))) < 0
            then siftDown_loop cmp (int e) (int c) (b\<lparr>order := xs[c := xs ! r, r := xs ! c]\<rparr>)
            else Some (b\<lparr>order := xs\<rparr>))
      else Some (b\<lparr>order := xs\<rparr>))"
proof -
  have shl: "js_shl (int r) (Suc 0) = 2 * int r" using js_shl_small [of "int r"] r by simp
  show ?thesis
  proof (cases "2 * r \<le> e")
    case False
    then show ?thesis by (subst siftDown_loop.simps) (simp add: shl)
  next
    case True
    have g: "u16_get xs (int k) = Some (unat (xs ! k))" if "k \<le> e" for k
      using that e by (intro u16_get_nat) simp
    have g0: "u16_get xs (2 * int r) = Some (unat (xs ! (2 * r)))"
      using g [of "2 * r"] True by simp
    have g1: "u16_get xs (2 * int r + 1) = Some (unat (xs ! (2 * r + 1)))" if "2 * r < e"
      using g [of "2 * r + 1"] that by (simp add: add.commute)
    have gr: "u16_get xs (int r) = Some (unat (xs ! r))"
      using g [of r] True by simp
    have s0: "u16_set (u16_set xs (2 * int r) (Some (unat (xs ! r)))) (int r)
                (Some (unat (xs ! (2 * r)))) = xs[2 * r := xs ! r, r := xs ! (2 * r)]"
      using u16_set_nat [of "2 * r" xs "xs ! r"]
        u16_set_nat [of r "xs[2 * r := xs ! r]" "xs ! (2 * r)"] True e by simp
    have ic: "1 + 2 * int r = 2 * int r + 1" by simp
    have s1: "u16_set (u16_set xs (2 * int r + 1) (Some (unat (xs ! r)))) (int r)
                (Some (unat (xs ! Suc (2 * r)))) = xs[Suc (2 * r) := xs ! r, r := xs ! Suc (2 * r)]"
      if "2 * r < e"
      using u16_set_nat [of "2 * r + 1" xs "xs ! r"]
        u16_set_nat [of r "xs[2 * r + 1 := xs ! r]" "xs ! (2 * r + 1)"] True e that
      by (simp add: add.commute)
    show ?thesis
    proof (cases "2 * r < e \<and> cmp (b\<lparr>order := xs\<rparr>) (Some (unat (xs ! (2 * r))))
                         (Some (unat (xs ! (2 * r + 1)))) < 0")
      case c1: True
      then show ?thesis using True
        by (subst siftDown_loop.simps) (simp add: shl g0 g1 gr s1 ic Let_def)
    next
      case c0: False
      then show ?thesis using True
        by (subst siftDown_loop.simps) (auto simp: shl g0 g1 gr s0 Let_def)
    qed
  qed
qed

lemma swap_prefix:
  assumes "c \<le> e" "r \<le> e" "e < length xs"
  shows "set (take (Suc e) (xs[c := xs ! r, r := xs ! c])) = set (take (Suc e) xs)"
    and "distinct (take (Suc e) (xs[c := xs ! r, r := xs ! c])) = distinct (take (Suc e) xs)"
    and "drop (Suc e) (xs[c := xs ! r, r := xs ! c]) = drop (Suc e) xs"
proof -
  let ?p = "take (Suc e) xs"
  have t: "take (Suc e) (xs[c := xs ! r, r := xs ! c]) = ?p[c := ?p ! r, r := ?p ! c]"
    using assms by (simp add: take_update_swap)
  have l: "c < length ?p" "r < length ?p" using assms by auto
  show "set (take (Suc e) (xs[c := xs ! r, r := xs ! c])) = set (take (Suc e) xs)"
    unfolding t using l by (rule set_swap)
  show "distinct (take (Suc e) (xs[c := xs ! r, r := xs ! c])) = distinct (take (Suc e) xs)"
    unfolding t using l by (rule distinct_swap)
  show "drop (Suc e) (xs[c := xs ! r, r := xs ! c]) = drop (Suc e) xs"
    using assms by simp
qed

lemma siftDown_loop_heap:
  fixes rk :: "nat \<Rightarrow> 'k::linorder" and b :: "'st QuadBatch"
  assumes cmp: "\<And>xs v w. v < n \<Longrightarrow> w < n \<Longrightarrow>
                  (cmp (b\<lparr>order := xs\<rparr>) (Some v) (Some w) < 0) = (rk v < rk w)"
  shows "e < length xs \<Longrightarrow> e < 2 ^ 30 \<Longrightarrow> s \<le> r \<Longrightarrow> r < 2 ^ 30 \<Longrightarrow>
         \<forall>k\<le>e. unat (xs ! k) < n \<Longrightarrow> heap_except (\<lambda>w. rk (unat w)) xs s e r \<Longrightarrow>
         \<exists>xs'. siftDown_loop cmp (int e) (int r) (b\<lparr>order := xs\<rparr>) = Some (b\<lparr>order := xs'\<rparr>) \<and>
               length xs' = length xs \<and>
               set (take (Suc e) xs') = set (take (Suc e) xs) \<and>
               distinct (take (Suc e) xs') = distinct (take (Suc e) xs) \<and>
               drop (Suc e) xs' = drop (Suc e) xs \<and>
               heap_from (\<lambda>w. rk (unat w)) xs' s e"
proof (induction "Suc e - r" arbitrary: r xs rule: less_induct)
  case less
  let ?x = "\<lambda>w. rk (unat w)"
  note len = less.prems(1) and e30 = less.prems(2) and sr = less.prems(3)
    and r30 = less.prems(4) and vals = less.prems(5) and he = less.prems(6)
  note step = siftDown_loop_step [OF r30 len, of cmp b]
  show ?case
  proof (cases "2 * r \<le> e")
    case False
    have "\<forall>k. 1 \<le> k \<and> k \<le> e \<and> k div 2 = r \<longrightarrow> ?x (xs ! k) \<le> ?x (xs ! r)"
      using False by auto
    with he have "heap_from ?x xs s e" by (rule heap_except_done)
    then show ?thesis using False by (intro exI [of _ xs]) (simp add: step)
  next
    case True
    define c where "c = (if 2 * r < e \<and> ?x (xs ! (2 * r)) < ?x (xs ! (2 * r + 1))
                         then 2 * r + 1 else 2 * r)"
    have ce: "c \<le> e" and cd: "c div 2 = r" and re: "r \<le> e"
      using True by (auto simp: c_def)
    have cmpx: "(cmp (b\<lparr>order := xs\<rparr>) (Some (unat (xs ! i))) (Some (unat (xs ! j))) < 0)
         = (?x (xs ! i) < ?x (xs ! j))" if "i \<le> e" "j \<le> e" for i j
      using cmp vals that by simp
    have sib: "\<forall>k. 1 \<le> k \<and> k \<le> e \<and> k div 2 = r \<longrightarrow> ?x (xs ! k) \<le> ?x (xs ! c)"
    proof (intro allI impI)
      fix k assume k: "1 \<le> k \<and> k \<le> e \<and> k div 2 = r"
      then have "k = 2 * r \<or> k = 2 * r + 1" by auto
      then show "?x (xs ! k) \<le> ?x (xs ! c)" using k by (auto simp: c_def)
    qed
    have stepc: "siftDown_loop cmp (int e) (int r) (b\<lparr>order := xs\<rparr>) =
        (if ?x (xs ! r) < ?x (xs ! c)
         then siftDown_loop cmp (int e) (int c) (b\<lparr>order := xs[c := xs ! r, r := xs ! c]\<rparr>)
         else Some (b\<lparr>order := xs\<rparr>))"
    proof (cases "2 * r < e")
      case True
      then show ?thesis using \<open>2 * r \<le> e\<close> re ce
        by (simp add: step Let_def cmpx c_def)
    next
      case False
      then show ?thesis using \<open>2 * r \<le> e\<close> re ce
        by (simp add: step Let_def cmpx c_def)
    qed
    show ?thesis
    proof (cases "?x (xs ! r) < ?x (xs ! c)")
      case False
      have "\<forall>k. 1 \<le> k \<and> k \<le> e \<and> k div 2 = r \<longrightarrow> ?x (xs ! k) \<le> ?x (xs ! r)"
      proof (intro allI impI)
        fix k assume k: "1 \<le> k \<and> k \<le> e \<and> k div 2 = r"
        with sib have "?x (xs ! k) \<le> ?x (xs ! c)" by blast
        also have "\<dots> \<le> ?x (xs ! r)" using False by simp
        finally show "?x (xs ! k) \<le> ?x (xs ! r)" .
      qed
      with he have "heap_from ?x xs s e" by (rule heap_except_done)
      then show ?thesis using False by (intro exI [of _ xs]) (simp add: stepc)
    next
      case big: True
      have cr: "c \<noteq> r" using big by auto
      then have rc: "r < c" using cd by (cases "c = 0") auto
      let ?ys = "xs[c := xs ! r, r := xs ! c]"
      have he': "heap_except ?x ?ys s e c"
        by (rule heap_except_swap [OF he sr len cd ce cr big sib])
      have m: "Suc e - c < Suc e - r" using rc ce by simp
      have vals': "\<forall>k\<le>e. unat (?ys ! k) < n"
        using vals ce re len by (auto simp: nth_list_update)
      have "\<exists>xs'. siftDown_loop cmp (int e) (int c) (b\<lparr>order := ?ys\<rparr>) = Some (b\<lparr>order := xs'\<rparr>) \<and>
               length xs' = length ?ys \<and>
               set (take (Suc e) xs') = set (take (Suc e) ?ys) \<and>
               distinct (take (Suc e) xs') = distinct (take (Suc e) ?ys) \<and>
               drop (Suc e) xs' = drop (Suc e) ?ys \<and>
               heap_from ?x xs' s e"
      proof (rule less.hyps [OF m _ e30 _ _ vals' he'])
        show "e < length ?ys" using len by simp
        show "s \<le> c" using sr rc by simp
        show "c < 2 ^ 30" using ce e30 by simp
      qed
      then obtain xs' where
        "siftDown_loop cmp (int e) (int c) (b\<lparr>order := ?ys\<rparr>) = Some (b\<lparr>order := xs'\<rparr>)"
        "length xs' = length ?ys"
        "set (take (Suc e) xs') = set (take (Suc e) ?ys)"
        "distinct (take (Suc e) xs') = distinct (take (Suc e) ?ys)"
        "drop (Suc e) xs' = drop (Suc e) ?ys"
        "heap_from ?x xs' s e"
        by blast
      then show ?thesis using big swap_prefix [OF ce re len]
        by (intro exI [of _ xs']) (simp add: stepc)
    qed
  qed
qed

lemma prefix_vals:
  assumes "set (take (Suc e) ys) = set (take (Suc e) xs)" and "e < length ys"
    and "\<forall>k\<le>e. P (xs ! k)"
  shows "\<forall>k\<le>e. P (ys ! k)"
proof (intro allI impI)
  fix k assume k: "k \<le> e"
  then have "ys ! k \<in> set (take (Suc e) ys)"
    using assms(2) by (auto simp: in_set_conv_nth intro!: exI [of _ k])
  then have "ys ! k \<in> set (take (Suc e) xs)" using assms(1) by simp
  then obtain j where "j < Suc e" "take (Suc e) xs ! j = ys ! k"
    by (auto simp: in_set_conv_nth)
  then show "P (ys ! k)" using assms(3) by (metis less_Suc_eq_le nth_take)
qed

lemma prefix_extend:
  assumes "set (take a ys) = set (take a xs)" and "distinct (take a ys) = distinct (take a xs)"
    and "drop a ys = drop a xs" and "a \<le> m"
  shows "set (take m ys) = set (take m xs)" and "distinct (take m ys) = distinct (take m xs)"
    and "drop m ys = drop m xs"
proof -
  obtain d where m: "m = a + d" using assms(4) by (auto simp: le_iff_add)
  have "take m ys = take a ys @ take d (drop a ys)" "take m xs = take a xs @ take d (drop a xs)"
    by (simp_all add: m take_add)
  then show "set (take m ys) = set (take m xs)" "distinct (take m ys) = distinct (take m xs)"
    using assms(1-3) by simp_all
  have "drop m ys = drop d (drop a ys)" "drop m xs = drop d (drop a xs)"
    by (simp_all add: m add.commute)
  then show "drop m ys = drop m xs" using assms(3) by simp
qed

lemma drop_eq_nth:
  assumes "drop a ys = drop a xs" and "a \<le> k" and "k < length ys" and "length ys = length xs"
  shows "ys ! k = xs ! k"
proof -
  obtain d where k: "k = a + d" using assms(2) by (auto simp: le_iff_add)
  have "ys ! k = drop a ys ! d" using assms(3) k by simp
  also have "\<dots> = drop a xs ! d" using assms(1) by simp
  also have "\<dots> = xs ! k" using assms(3,4) k by simp
  finally show ?thesis .
qed

lemma heapify_loop_neg: "s < 0 \<Longrightarrow> heapify_loop cmp c s b = Some b"
  by (subst heapify_loop.simps) simp

lemma heapify_loop_heap:
  fixes rk :: "nat \<Rightarrow> 'k::linorder" and b :: "'st QuadBatch"
  assumes cmp: "\<And>xs v w. v < n \<Longrightarrow> w < n \<Longrightarrow>
                  (cmp (b\<lparr>order := xs\<rparr>) (Some v) (Some w) < 0) = (rk v < rk w)"
  shows "e < length xs \<Longrightarrow> e < 2 ^ 30 \<Longrightarrow> s < 2 ^ 30 \<Longrightarrow>
         \<forall>k\<le>e. unat (xs ! k) < n \<Longrightarrow> heap_from (\<lambda>w. rk (unat w)) xs (Suc s) e \<Longrightarrow>
         \<exists>xs'. heapify_loop cmp (int e + 1) (int s) (b\<lparr>order := xs\<rparr>) = Some (b\<lparr>order := xs'\<rparr>) \<and>
               length xs' = length xs \<and>
               set (take (Suc e) xs') = set (take (Suc e) xs) \<and>
               distinct (take (Suc e) xs') = distinct (take (Suc e) xs) \<and>
               drop (Suc e) xs' = drop (Suc e) xs \<and>
               heap_from (\<lambda>w. rk (unat w)) xs' 0 e"
proof (induction s arbitrary: xs)
  case 0
  have "\<exists>xs'. siftDown_loop cmp (int e) (int 0) (b\<lparr>order := xs\<rparr>) = Some (b\<lparr>order := xs'\<rparr>) \<and>
               length xs' = length xs \<and>
               set (take (Suc e) xs') = set (take (Suc e) xs) \<and>
               distinct (take (Suc e) xs') = distinct (take (Suc e) xs) \<and>
               drop (Suc e) xs' = drop (Suc e) xs \<and>
               heap_from (\<lambda>w. rk (unat w)) xs' 0 e"
    using "0.prems" by (intro siftDown_loop_heap [where cmp = cmp and b = b and n = n and rk = rk, OF cmp] heap_from_except) auto
  then show ?case
    by (subst heapify_loop.simps) (auto simp: siftDown_def heapify_loop_neg)
next
  case (Suc s)
  have "\<exists>xs'. siftDown_loop cmp (int e) (int (Suc s)) (b\<lparr>order := xs\<rparr>) = Some (b\<lparr>order := xs'\<rparr>) \<and>
               length xs' = length xs \<and>
               set (take (Suc e) xs') = set (take (Suc e) xs) \<and>
               distinct (take (Suc e) xs') = distinct (take (Suc e) xs) \<and>
               drop (Suc e) xs' = drop (Suc e) xs \<and>
               heap_from (\<lambda>w. rk (unat w)) xs' (Suc s) e"
    using Suc.prems by (intro siftDown_loop_heap [where cmp = cmp and b = b and n = n and rk = rk, OF cmp] heap_from_except) auto
  then obtain ys where ys:
    "siftDown_loop cmp (int e) (int (Suc s)) (b\<lparr>order := xs\<rparr>) = Some (b\<lparr>order := ys\<rparr>)"
    "length ys = length xs"
    "set (take (Suc e) ys) = set (take (Suc e) xs)"
    "distinct (take (Suc e) ys) = distinct (take (Suc e) xs)"
    "drop (Suc e) ys = drop (Suc e) xs"
    "heap_from (\<lambda>w. rk (unat w)) ys (Suc s) e"
    by blast
  have v: "\<forall>k\<le>e. unat (ys ! k) < n"
    using ys(2,3) Suc.prems(1,4) by (intro prefix_vals [of e ys xs]) auto
  have "\<exists>xs'. heapify_loop cmp (int e + 1) (int s) (b\<lparr>order := ys\<rparr>) = Some (b\<lparr>order := xs'\<rparr>) \<and>
               length xs' = length ys \<and>
               set (take (Suc e) xs') = set (take (Suc e) ys) \<and>
               distinct (take (Suc e) xs') = distinct (take (Suc e) ys) \<and>
               drop (Suc e) xs' = drop (Suc e) ys \<and>
               heap_from (\<lambda>w. rk (unat w)) xs' 0 e"
  proof (rule Suc.IH [OF _ Suc.prems(2) _ v ys(6)])
    show "e < length ys" using ys(2) Suc.prems(1) by simp
    show "s < 2 ^ 30" using Suc.prems(3) by simp
  qed
  then obtain xs' where
    "heapify_loop cmp (int e + 1) (int s) (b\<lparr>order := ys\<rparr>) = Some (b\<lparr>order := xs'\<rparr>)"
    "length xs' = length ys"
    "set (take (Suc e) xs') = set (take (Suc e) ys)"
    "distinct (take (Suc e) xs') = distinct (take (Suc e) ys)"
    "drop (Suc e) xs' = drop (Suc e) ys"
    "heap_from (\<lambda>w. rk (unat w)) xs' 0 e"
    by blast
  then show ?case using ys
    by (subst heapify_loop.simps) (auto simp: siftDown_def intro!: exI [of _ xs'])
qed


lemma sort_loop_step:
  assumes "e < length xs"
  shows "sort_loop cmp (int (Suc e)) (b\<lparr>order := xs\<rparr>) = 
     (if Suc e < length xs then
        (case siftDown_loop cmp (int e) 0 (b\<lparr>order := xs[0 := xs ! Suc e, Suc e := xs ! 0]\<rparr>) of
           None \<Rightarrow> None
         | Some b' \<Rightarrow> sort_loop cmp (int e) b')
      else sort_loop cmp (int (Suc e)) (b\<lparr>order := xs\<rparr>))"
proof (cases "Suc e < length xs")
  case True
  have ne: "0 < length xs" using True by linarith
  have g0: "u16_get xs 0 = Some (unat (xs ! 0))" using ne by (simp add: u16_get_def)
  have ge: "u16_get xs (1 + int e) = Some (unat (xs ! Suc e))"
    using True u16_get_nat [of "Suc e" xs] by simp
  have s0: "u16_set xs 0 (Some (unat w)) = xs[0 := w]" for w
    using ne by (simp add: u16_set_def)
  have se: "u16_set ys (1 + int e) (Some (unat w)) = ys[Suc e := w]" if "length ys = length xs" for w ys
    using True that u16_set_nat [of "Suc e" ys w] by simp
  show ?thesis using True
    by (subst sort_loop.simps) (simp add: Let_def siftDown_def g0 ge s0 se cong: option.case_cong)
next
  case False
  then show ?thesis by simp
qed

lemma sort_loop_sorted:
  fixes rk :: "nat \<Rightarrow> 'k::linorder" and b :: "'st QuadBatch"
  assumes cmp: "\<And>xs v w. v < n \<Longrightarrow> w < n \<Longrightarrow>
                  (cmp (b\<lparr>order := xs\<rparr>) (Some v) (Some w) < 0) = (rk v < rk w)"
  shows "e \<le> m \<Longrightarrow> m < length xs \<Longrightarrow> m < 2 ^ 30 \<Longrightarrow> \<forall>k\<le>m. unat (xs ! k) < n \<Longrightarrow>
         heap_from (\<lambda>w. rk (unat w)) xs 0 e \<Longrightarrow>
         \<forall>p q. e < p \<and> p \<le> q \<and> q \<le> m \<longrightarrow> rk (unat (xs ! p)) \<le> rk (unat (xs ! q)) \<Longrightarrow>
         \<forall>p q. p \<le> e \<and> e < q \<and> q \<le> m \<longrightarrow> rk (unat (xs ! p)) \<le> rk (unat (xs ! q)) \<Longrightarrow>
         \<exists>xs'. sort_loop cmp (int e) (b\<lparr>order := xs\<rparr>) = Some (b\<lparr>order := xs'\<rparr>) \<and>
               length xs' = length xs \<and>
               set (take (Suc m) xs') = set (take (Suc m) xs) \<and>
               distinct (take (Suc m) xs') = distinct (take (Suc m) xs) \<and>
               drop (Suc m) xs' = drop (Suc m) xs \<and>
               (\<forall>p q. p \<le> q \<and> q \<le> m \<longrightarrow> rk (unat (xs' ! p)) \<le> rk (unat (xs' ! q)))"
proof (induction e arbitrary: xs)
  case 0
  have "sort_loop cmp (int 0) (b\<lparr>order := xs\<rparr>) = Some (b\<lparr>order := xs\<rparr>)"
    by (subst sort_loop.simps) simp
  moreover have "rk (unat (xs ! p)) \<le> rk (unat (xs ! q))" if "p \<le> q" "q \<le> m" for p q
  proof (cases "p = q")
    case True
    then show ?thesis by simp
  next
    case False
    then show ?thesis using that "0.prems"(6,7) by (cases "p = 0") auto
  qed
  ultimately show ?case by (intro exI [of _ xs]) simp
next
  case (Suc e)
  let ?x = "\<lambda>w. rk (unat w)"
  note em = Suc.prems(1) and len = Suc.prems(2) and m30 = Suc.prems(3) and vals = Suc.prems(4)
    and heap = Suc.prems(5) and suf = Suc.prems(6) and bnd = Suc.prems(7)
  define xs1 where "xs1 = xs[0 := xs ! Suc e, Suc e := xs ! 0]"
  have len1: "length xs1 = length xs" by (simp add: xs1_def)
  have ne: "0 < length xs" using em len by linarith
  have x10: "xs1 ! 0 = xs ! Suc e" and x1e: "xs1 ! Suc e = xs ! 0"
    and x1o: "\<And>k. k \<noteq> 0 \<Longrightarrow> k \<noteq> Suc e \<Longrightarrow> xs1 ! k = xs ! k"
    using em len ne by (auto simp: nth_list_update xs1_def)
  have vals1: "\<forall>k\<le>m. unat (xs1 ! k) < n"
  proof (intro allI impI)
    fix k assume "k \<le> m"
    then show "unat (xs1 ! k) < n"
      using vals em x10 x1e x1o [of k] by (cases "k = 0"; cases "k = Suc e") auto
  qed
  have he1: "heap_except ?x xs1 0 e 0"
    unfolding heap_except_def
  proof (intro conjI allI impI)
    fix k assume k: "1 \<le> k \<and> k \<le> e \<and> 0 \<le> k div 2 \<and> k div 2 \<noteq> 0"
    then have "xs1 ! k = xs ! k" "xs1 ! (k div 2) = xs ! (k div 2)"
      by (auto intro!: x1o)
    then show "?x (xs1 ! k) \<le> ?x (xs1 ! (k div 2))"
      using heap k unfolding heap_from_def by auto
  qed auto
  have P1: "\<forall>k\<le>e. ?x (xs1 ! k) \<le> ?x (xs ! 0) \<and>
                  (\<forall>q. Suc e < q \<and> q \<le> m \<longrightarrow> ?x (xs1 ! k) \<le> ?x (xs ! q))"
  proof (intro allI impI)
    fix k assume k: "k \<le> e"
    have "\<exists>k'. k' \<le> Suc e \<and> xs1 ! k = xs ! k'"
    proof (cases "k = 0")
      case True
      then show ?thesis using x10 by (intro exI [of _ "Suc e"]) simp
    next
      case False
      then show ?thesis using x1o [of k] k by (intro exI [of _ k]) simp
    qed
    then obtain k' where k': "k' \<le> Suc e" "xs1 ! k = xs ! k'" by blast
    have "?x (xs ! k') \<le> ?x (xs ! 0)" using heap k'(1) by (rule heap_root_max)
    moreover have "\<forall>q. Suc e < q \<and> q \<le> m \<longrightarrow> ?x (xs ! k') \<le> ?x (xs ! q)"
      using bnd k'(1) by auto
    ultimately show "?x (xs1 ! k) \<le> ?x (xs ! 0) \<and>
                  (\<forall>q. Suc e < q \<and> q \<le> m \<longrightarrow> ?x (xs1 ! k) \<le> ?x (xs ! q))"
      using k'(2) by simp
  qed
  have "\<exists>ys. siftDown_loop cmp (int e) (int 0) (b\<lparr>order := xs1\<rparr>) = Some (b\<lparr>order := ys\<rparr>) \<and>
               length ys = length xs1 \<and>
               set (take (Suc e) ys) = set (take (Suc e) xs1) \<and>
               distinct (take (Suc e) ys) = distinct (take (Suc e) xs1) \<and>
               drop (Suc e) ys = drop (Suc e) xs1 \<and>
               heap_from ?x ys 0 e"
  proof (rule siftDown_loop_heap [where cmp = cmp and b = b and n = n and rk = rk, OF cmp _ _ _ _ _ he1])
    show "e < length xs1" "e < 2 ^ 30" "(0::nat) \<le> 0" "(0::nat) < 2 ^ 30"
      using em len m30 len1 by auto
    show "\<forall>k\<le>e. unat (xs1 ! k) < n" using vals1 em by auto
  qed
  then obtain ys where ys:
    "siftDown_loop cmp (int e) 0 (b\<lparr>order := xs1\<rparr>) = Some (b\<lparr>order := ys\<rparr>)"
    "length ys = length xs"
    "set (take (Suc e) ys) = set (take (Suc e) xs1)"
    "distinct (take (Suc e) ys) = distinct (take (Suc e) xs1)"
    "drop (Suc e) ys = drop (Suc e) xs1"
    "heap_from ?x ys 0 e"
    using len1 by auto
  have hi: "ys ! k = xs1 ! k" if "Suc e \<le> k" "k \<le> m" for k
    using ys(5) that len ys(2) len1 by (intro drop_eq_nth [of "Suc e"]) auto
  have lo: "\<forall>k\<le>e. ?x (ys ! k) \<le> ?x (xs ! 0) \<and>
                  (\<forall>q. Suc e < q \<and> q \<le> m \<longrightarrow> ?x (ys ! k) \<le> ?x (xs ! q))"
    using ys(3) P1 em len ys(2) len1
    by (intro prefix_vals [of e ys xs1
          "\<lambda>w. ?x w \<le> ?x (xs ! 0) \<and> (\<forall>q. Suc e < q \<and> q \<le> m \<longrightarrow> ?x w \<le> ?x (xs ! q))"]) auto
  have valsy: "\<forall>k\<le>m. unat (ys ! k) < n"
  proof (intro allI impI)
    fix k assume k: "k \<le> m"
    show "unat (ys ! k) < n"
    proof (cases "k \<le> e")
      case True
      have "\<forall>k\<le>e. unat (ys ! k) < n"
        using ys(3) vals1 em len ys(2) by (intro prefix_vals [of e ys xs1]) auto
      then show ?thesis using True by simp
    next
      case False
      then show ?thesis using hi [of k] k vals1 by auto
    qed
  qed
  have sufy: "\<forall>p q. e < p \<and> p \<le> q \<and> q \<le> m \<longrightarrow> ?x (ys ! p) \<le> ?x (ys ! q)"
  proof (intro allI impI)
    fix p q assume pq: "e < p \<and> p \<le> q \<and> q \<le> m"
    then have yp: "ys ! p = xs1 ! p" and yq: "ys ! q = xs1 ! q" using hi by auto
    show "?x (ys ! p) \<le> ?x (ys ! q)"
    proof (cases "p = q")
      case True
      then show ?thesis by simp
    next
      case False
      show ?thesis
      proof (cases "p = Suc e")
        case True
        then have "xs1 ! p = xs ! 0" "xs1 ! q = xs ! q" using x1e x1o [of q] False pq by auto
        then show ?thesis using yp yq bnd pq True False by auto
      next
        case pe: False
        then have "xs1 ! p = xs ! p" "xs1 ! q = xs ! q" using x1o pq by auto
        then show ?thesis using yp yq suf pq pe by auto
      qed
    qed
  qed
  have bndy: "\<forall>p q. p \<le> e \<and> e < q \<and> q \<le> m \<longrightarrow> ?x (ys ! p) \<le> ?x (ys ! q)"
  proof (intro allI impI)
    fix p q assume pq: "p \<le> e \<and> e < q \<and> q \<le> m"
    then have yq: "ys ! q = xs1 ! q" using hi by auto
    show "?x (ys ! p) \<le> ?x (ys ! q)"
    proof (cases "q = Suc e")
      case True
      then show ?thesis using yq x1e lo pq by auto
    next
      case False
      then have "xs1 ! q = xs ! q" using x1o pq by auto
      then show ?thesis using yq lo pq False by auto
    qed
  qed
  have "\<exists>xs'. sort_loop cmp (int e) (b\<lparr>order := ys\<rparr>) = Some (b\<lparr>order := xs'\<rparr>) \<and>
               length xs' = length ys \<and>
               set (take (Suc m) xs') = set (take (Suc m) ys) \<and>
               distinct (take (Suc m) xs') = distinct (take (Suc m) ys) \<and>
               drop (Suc m) xs' = drop (Suc m) ys \<and>
               (\<forall>p q. p \<le> q \<and> q \<le> m \<longrightarrow> ?x (xs' ! p) \<le> ?x (xs' ! q))"
  proof (rule Suc.IH [OF _ _ m30 valsy ys(6) sufy bndy])
    show "e \<le> m" "m < length ys" using em len ys(2) by auto
  qed
  then obtain xs' where xs':
    "sort_loop cmp (int e) (b\<lparr>order := ys\<rparr>) = Some (b\<lparr>order := xs'\<rparr>)"
    "length xs' = length ys"
    "set (take (Suc m) xs') = set (take (Suc m) ys)"
    "distinct (take (Suc m) xs') = distinct (take (Suc m) ys)"
    "drop (Suc m) xs' = drop (Suc m) ys"
    "\<forall>p q. p \<le> q \<and> q \<le> m \<longrightarrow> ?x (xs' ! p) \<le> ?x (xs' ! q)"
    by blast
  have ext: "set (take (Suc m) ys) = set (take (Suc m) xs1)"
    "distinct (take (Suc m) ys) = distinct (take (Suc m) xs1)"
    "drop (Suc m) ys = drop (Suc m) xs1"
    using prefix_extend [OF ys(3,4,5), of "Suc m"] em by auto
  have sw: "set (take (Suc m) xs1) = set (take (Suc m) xs)"
    "distinct (take (Suc m) xs1) = distinct (take (Suc m) xs)"
    "drop (Suc m) xs1 = drop (Suc m) xs"
    using swap_prefix [of 0 m "Suc e" xs] em len by (auto simp: xs1_def)
  have "sort_loop cmp (int (Suc e)) (b\<lparr>order := xs\<rparr>) = Some (b\<lparr>order := xs'\<rparr>)"
    using sort_loop_step [of e xs cmp b] em len ys(1) xs'(1) by (simp add: xs1_def)
  then show ?case using xs' ys(2) ext sw by (intro exI [of _ xs']) simp
qed

lemma sort_batch_sorted:
  fixes rk :: "nat \<Rightarrow> 'k::linorder" and b :: "'st QuadBatch"
  assumes cmp: "\<And>xs v w. v < n \<Longrightarrow> w < n \<Longrightarrow>
                  (cmp (b\<lparr>order := xs\<rparr>) (Some v) (Some w) < 0) = (rk v < rk w)"
    and n: "n = quadCount b" "n \<le> length (order b)" "n < 2 ^ 30"
    and vals: "\<forall>k<n. unat (order b ! k) < n"
  shows "\<exists>xs'. sort_batch cmp b = Some (b\<lparr>order := xs'\<rparr>) \<and>
               length xs' = length (order b) \<and>
               set (take n xs') = set (take n (order b)) \<and>
               distinct (take n xs') = distinct (take n (order b)) \<and>
               drop n xs' = drop n (order b) \<and>
               (\<forall>p q. p \<le> q \<and> q < n \<longrightarrow> rk (unat (xs' ! p)) \<le> rk (unat (xs' ! q)))"
proof (cases n)
  case 0
  have "js_sar 0 (Suc 0) = 0" using js_sar_small [of 0] by simp
  moreover have "siftDown_loop cmp (- 1) 0 b = Some b"
    using js_shl_small [of 0] by (subst siftDown_loop.simps) simp
  moreover have "sort_loop cmp (- 1) b = Some b" by (subst sort_loop.simps) simp
  ultimately have "sort_batch cmp b = Some b"
    using 0 n(1)
    by (simp add: sort_batch_def heapify_def siftDown_def heapify_loop_neg
          heapify_loop.simps [of _ _ 0])
  then show ?thesis using 0 by (intro exI [of _ "order b"]) simp
next
  case (Suc m)
  let ?x = "\<lambda>w. rk (unat w)"
  define xs where "xs = order b"
  have b: "b = b\<lparr>order := xs\<rparr>" by (simp add: xs_def)
  have m: "m < length xs" "m < 2 ^ 30" "n div 2 < 2 ^ 30" using n Suc by (auto simp: xs_def)
  have v: "\<forall>k\<le>m. unat (xs ! k) < n" using vals Suc by (auto simp: xs_def)
  have h0: "heap_from ?x xs (Suc (n div 2)) m"
    unfolding heap_from_def using Suc by auto
  have "\<exists>ys. heapify_loop cmp (int m + 1) (int (n div 2)) (b\<lparr>order := xs\<rparr>) = Some (b\<lparr>order := ys\<rparr>) \<and>
               length ys = length xs \<and>
               set (take (Suc m) ys) = set (take (Suc m) xs) \<and>
               distinct (take (Suc m) ys) = distinct (take (Suc m) xs) \<and>
               drop (Suc m) ys = drop (Suc m) xs \<and>
               heap_from ?x ys 0 m"
    by (rule heapify_loop_heap [where cmp = cmp and b = b and n = n and rk = rk,
          OF cmp m(1,2,3) v h0])
  then obtain ys where ys:
    "heapify_loop cmp (int m + 1) (int (n div 2)) (b\<lparr>order := xs\<rparr>) = Some (b\<lparr>order := ys\<rparr>)"
    "length ys = length xs"
    "set (take (Suc m) ys) = set (take (Suc m) xs)"
    "distinct (take (Suc m) ys) = distinct (take (Suc m) xs)"
    "drop (Suc m) ys = drop (Suc m) xs"
    "heap_from ?x ys 0 m"
    by blast
  have cq: "int (quadCount b) = int m + 1" using Suc n(1) by simp
  have "js_sar (int n) 1 = int n div 2"
    using n(3) by (intro js_sar_small) auto
  then have sar: "js_sar (int m + 1) 1 = int (n div 2)"
    using Suc by (simp add: zdiv_int add.commute)
  have ys1: "heapify_loop cmp (int m + 1) (int (n div 2)) b = Some (b\<lparr>order := ys\<rparr>)"
    using ys(1) by (simp add: xs_def)
  have hp: "heapify cmp b = Some (b\<lparr>order := ys\<rparr>)"
    unfolding heapify_def Let_def cq sar by (rule ys1)
  have vy: "\<forall>k\<le>m. unat (ys ! k) < n"
    using ys(2,3) m(1) v by (intro prefix_vals [of m ys xs]) auto
  have "\<exists>xs'. sort_loop cmp (int m) (b\<lparr>order := ys\<rparr>) = Some (b\<lparr>order := xs'\<rparr>) \<and>
               length xs' = length ys \<and>
               set (take (Suc m) xs') = set (take (Suc m) ys) \<and>
               distinct (take (Suc m) xs') = distinct (take (Suc m) ys) \<and>
               drop (Suc m) xs' = drop (Suc m) ys \<and>
               (\<forall>p q. p \<le> q \<and> q \<le> m \<longrightarrow> ?x (xs' ! p) \<le> ?x (xs' ! q))"
  proof (rule sort_loop_sorted [where cmp = cmp and b = b and n = n and rk = rk,
          OF cmp _ _ m(2) vy ys(6)])
    show "m \<le> m" "m < length ys" using m ys(2) by auto
  qed auto
  then obtain xs' where xs':
    "sort_loop cmp (int m) (b\<lparr>order := ys\<rparr>) = Some (b\<lparr>order := xs'\<rparr>)"
    "length xs' = length ys"
    "set (take (Suc m) xs') = set (take (Suc m) ys)"
    "distinct (take (Suc m) xs') = distinct (take (Suc m) ys)"
    "drop (Suc m) xs' = drop (Suc m) ys"
    "\<forall>p q. p \<le> q \<and> q \<le> m \<longrightarrow> ?x (xs' ! p) \<le> ?x (xs' ! q)"
    by blast
  have "sort_batch cmp b = Some (b\<lparr>order := xs'\<rparr>)"
    using hp xs'(1) Suc n(1) by (simp add: sort_batch_def)
  then show ?thesis using xs' ys Suc
    by (intro exI [of _ xs']) (auto simp: xs_def less_Suc_eq_le)
qed

lemma backToFront_rank:
  assumes "v < n" "w < n" "n \<le> length (depth b)" "\<forall>i<n. depth b ! i \<noteq> None"
  shows "(backToFront (b\<lparr>order := xs\<rparr>) (Some v) (Some w) < 0)
       = ((- the (depth b ! v), v) < (- the (depth b ! w), w))"
proof -
  obtain dv dw where "depth b ! v = Some dv" "depth b ! w = Some dw"
    using assms by (metis option.exhaust)
  then show ?thesis using assms
    by (auto simp: backToFront_def f32_get_def js_lt_def js_gt_def Let_def)
qed

lemma frontToBack_rank:
  assumes "v < n" "w < n" "n \<le> length (depth b)" "\<forall>i<n. depth b ! i \<noteq> None"
  shows "(frontToBack (b\<lparr>order := xs\<rparr>) (Some v) (Some w) < 0)
       = ((the (depth b ! v), v) < (the (depth b ! w), w))"
proof -
  obtain dv dw where "depth b ! v = Some dv" "depth b ! w = Some dw"
    using assms by (metis option.exhaust)
  then show ?thesis using assms
    by (auto simp: frontToBack_def f32_get_def js_lt_def js_gt_def Let_def)
qed

lemma distinct_words_bound:
  fixes xs :: "16 word list"
  assumes "distinct xs"
  shows "length xs \<le> 65536"
proof -
  have "length xs = card (set xs)" using assms by (simp add: distinct_card)
  also have "\<dots> \<le> card (UNIV :: 16 word set)" by (intro card_mono) auto
  also have "\<dots> = 65536" by (simp add: card_word)
  finally show ?thesis .
qed

lemma sorted_ties:
  fixes key :: "nat \<Rightarrow> real" and f :: "nat \<Rightarrow> nat" and n :: nat
  assumes sorted: "\<forall>p q. p \<le> q \<and> q < n \<longrightarrow> (key (f p), f p) \<le> (key (f q), f q)"
    and "p < n" "q < n" "key (f p) = key (f q)" "f p < f q"
  shows "p < q"
proof (rule ccontr)
  assume "\<not> p < q"
  then have "q \<le> p \<and> p < n" using \<open>p < n\<close> by simp
  with sorted have "(key (f q), f q) \<le> (key (f p), f p)" by blast
  then show False using assms(4,5) by simp
qed

text \<open>
  C6 (as amended).  The batch holds \<open>count\<close> quads within its arrays, \<open>order[0..count)\<close> is a
  permutation of the insertion indices \<open>0..count-1\<close> (its entries are distinct and below
  \<open>count\<close>), and every depth of a quad is a number.  Then \<open>sort\<close> with \<open>backToFront\<close> or with \<open>frontToBack\<close> returns, \<open>order[0..count)\<close>
  holds the same indices again, and of two quads with equal depth the one with the smaller
  insertion index comes first in \<open>order\<close>.
\<close>

theorem sort_ties_keep_insertion_order:
  fixes b :: "'st QuadBatch"
  assumes cmp: "cmp = backToFront \<or> cmp = frontToBack"
    and len: "quadCount b \<le> length (order b)" "quadCount b \<le> length (depth b)"
    and perm: "distinct (take (quadCount b) (order b))"
      "\<forall>w \<in> set (take (quadCount b) (order b)). unat w < quadCount b"
    and num: "\<forall>i < quadCount b. depth b ! i \<noteq> None"
  shows "\<exists>b'. sort_batch cmp b = Some b' \<and> depth b' = depth b \<and> quadCount b' = quadCount b \<and>
     distinct (take (quadCount b) (order b')) \<and>
     set (take (quadCount b) (order b')) = set (take (quadCount b) (order b)) \<and>
     (\<forall>p q. p < quadCount b \<and> q < quadCount b \<and>
            depth b ! unat (order b' ! p) = depth b ! unat (order b' ! q) \<and>
            unat (order b' ! p) < unat (order b' ! q) \<longrightarrow> p < q)"
proof -
  define n where "n = quadCount b"
  have "length (take n (order b)) \<le> 65536"
    using perm(1) unfolding n_def by (rule distinct_words_bound)
  then have n30: "n < 2 ^ 30" using len(1) by (simp add: n_def)
  have vals: "\<forall>k<n. unat (order b ! k) < n"
  proof (intro allI impI)
    fix k assume "k < n"
    then have "order b ! k \<in> set (take n (order b))"
      using len(1) by (auto simp: in_set_conv_nth n_def intro!: exI [of _ k])
    then show "unat (order b ! k) < n" using perm(2) by (simp add: n_def)
  qed
  have main: ?thesis
    if rank: "\<And>xs v w. v < n \<Longrightarrow> w < n \<Longrightarrow>
                (cmp (b\<lparr>order := xs\<rparr>) (Some v) (Some w) < 0) = ((key v, v) < (key w, w))"
      and keyeq: "\<And>v w. depth b ! v = depth b ! w \<Longrightarrow> key v = key w"
    for key :: "nat \<Rightarrow> real"
  proof -
    have "\<exists>xs'. sort_batch cmp b = Some (b\<lparr>order := xs'\<rparr>) \<and>
               length xs' = length (order b) \<and>
               set (take n xs') = set (take n (order b)) \<and>
               distinct (take n xs') = distinct (take n (order b)) \<and>
               drop n xs' = drop n (order b) \<and>
               (\<forall>p q. p \<le> q \<and> q < n \<longrightarrow> (key (unat (xs' ! p)), unat (xs' ! p))
                                          \<le> (key (unat (xs' ! q)), unat (xs' ! q)))"
      by (rule sort_batch_sorted [where cmp = cmp and b = b and n = n
            and rk = "\<lambda>v. (key v, v)", OF rank n_def len(1) [folded n_def] n30 vals])
    then obtain xs' where xs': "sort_batch cmp b = Some (b\<lparr>order := xs'\<rparr>)"
      "set (take n xs') = set (take n (order b))"
      "distinct (take n xs') = distinct (take n (order b))"
      "\<forall>p q. p \<le> q \<and> q < n \<longrightarrow> (key (unat (xs' ! p)), unat (xs' ! p))
                                          \<le> (key (unat (xs' ! q)), unat (xs' ! q))"
      by blast
    have ties: "p < q" if "p < n" "q < n" "key (unat (xs' ! p)) = key (unat (xs' ! q))"
      "unat (xs' ! p) < unat (xs' ! q)" for p q
      using xs'(4) that by (rule sorted_ties [where f = "\<lambda>p. unat (xs' ! p)"])
    define b' where "b' = b\<lparr>order := xs'\<rparr>"
    have 1: "sort_batch cmp b = Some b'" using xs'(1) by (simp add: b'_def)
    have 2: "depth b' = depth b" "quadCount b' = quadCount b" by (simp_all add: b'_def)
    have 3: "distinct (take (quadCount b) (order b'))"
      "set (take (quadCount b) (order b')) = set (take (quadCount b) (order b))"
      using xs'(2,3) perm(1) by (simp_all add: b'_def n_def)
    have 4: "p < q" if "p < quadCount b" "q < quadCount b"
      "depth b ! unat (order b' ! p) = depth b ! unat (order b' ! q)"
      "unat (order b' ! p) < unat (order b' ! q)" for p q
    proof (rule ties)
      show "p < n" "q < n" using that by (simp_all add: n_def)
      show "key (unat (xs' ! p)) = key (unat (xs' ! q))"
        using that(3) by (intro keyeq) (simp add: b'_def)
      show "unat (xs' ! p) < unat (xs' ! q)" using that(4) by (simp add: b'_def)
    qed
    from 1 2 3 4 show ?thesis by blast
  qed
  from cmp show ?thesis
  proof
    assume c: "cmp = backToFront"
    show ?thesis
    proof (rule main [where key = "\<lambda>v. - the (depth b ! v)"])
      fix xs v w assume "v < n" "w < n"
      then show "(cmp (b\<lparr>order := xs\<rparr>) (Some v) (Some w) < 0)
          = ((- the (depth b ! v), v) < (- the (depth b ! w), w))"
        unfolding c using len(2) num unfolding n_def by (rule backToFront_rank)
    qed simp
  next
    assume c: "cmp = frontToBack"
    show ?thesis
    proof (rule main [where key = "\<lambda>v. the (depth b ! v)"])
      fix xs v w assume "v < n" "w < n"
      then show "(cmp (b\<lparr>order := xs\<rparr>) (Some v) (Some w) < 0)
          = ((the (depth b ! v), v) < (the (depth b ! w), w))"
        unfolding c using len(2) num unfolding n_def by (rule frontToBack_rank)
    qed simp
  qed
qed

theorem sort_ties_keep_insertion_order_witness:
  "(backToFront = (backToFront :: unit comparator) \<or> backToFront = (frontToBack :: unit comparator)) \<and>
   quadCount tied_quads = 4 \<and> length (order tied_quads) = 4 \<and> length (depth tied_quads) = 4 \<and>
   map unat (take 4 (order tied_quads)) = [0, 1, 2, 3] \<and>
   depth tied_quads = [Some 1, Some 2, Some 1, Some 2] \<and>
   map_option order (sort_batch backToFront tied_quads) = Some [1, 3, 0, 2] \<and>
   (\<exists>b'. sort_batch backToFront tied_quads = Some b' \<and>
      distinct (take 4 (order b')) \<and> set (take 4 (order b')) = set (take 4 (order tied_quads)))"
proof -
  have q: "quadCount tied_quads = 4" by code_simp
  have l: "length (order tied_quads) = 4" "length (depth tied_quads) = 4" by code_simp+
  have l': "quadCount tied_quads \<le> length (order tied_quads)"
    "quadCount tied_quads \<le> length (depth tied_quads)" unfolding q l by simp_all
  have d: "distinct (take (quadCount tied_quads) (order tied_quads))" by code_simp
  have m: "map unat (take 4 (order tied_quads)) = [0, 1, 2, 3]" by code_simp
  have v: "\<forall>w \<in> set (take (quadCount tied_quads) (order tied_quads)). unat w < quadCount tied_quads"
    by code_simp
  have e: "depth tied_quads = [Some 1, Some 2, Some 1, Some 2]"
    "map_option order (sort_batch backToFront tied_quads) = Some [1, 3, 0, 2]" by code_simp+
  have "\<forall>i \<in> set [0..<4]. depth tied_quads ! i \<noteq> None" by code_simp
  then have nn: "\<forall>i < quadCount tied_quads. depth tied_quads ! i \<noteq> None" by (simp add: q)
  have "\<exists>b'. sort_batch backToFront tied_quads = Some b' \<and>
      distinct (take 4 (order b')) \<and> set (take 4 (order b')) = set (take 4 (order tied_quads))"
    using sort_ties_keep_insertion_order [of backToFront tied_quads, OF _ l' d v nn]
    unfolding q by blast
  then show ?thesis using q l m e by simp
qed

text \<open>
  C6 as stated, for every batch, fails when a depth is \<open>NaN\<close>.  Every comparison with \<open>NaN\<close>
  is false, so both comparators order a pair that involves such a quad by the insertion
  indices alone, and the answers are no longer transitive.  Six quads with depths 0, 1, 1,
  \<open>NaN\<close>, 1, 2 are sorted back to front into \<open>order = [2, 3, 5, 1, 4, 0]\<close>: quads 1 and 2 have
  the same depth 1, and quad 2 comes first.
\<close>

theorem sort_ties_nan_counterexample:
  "quadCount nan_quads = 6 \<and> order nan_quads = [0, 1, 2, 3, 4, 5] \<and>
   depth nan_quads = [Some 0, Some 1, Some 1, None, Some 1, Some 2] \<and>
   map_option order (sort_batch backToFront nan_quads) = Some [2, 3, 5, 1, 4, 0]"
  by code_simp

subsection \<open>Sorting three quads\<close>

lemma take_three: "3 \<le> length xs \<Longrightarrow> take 3 xs = [xs ! 0, xs ! 1, xs ! 2]"
proof -
  assume "3 \<le> length xs"
  then obtain a b c ys where "xs = a # b # c # ys"
    by (cases xs; cases "tl xs"; cases "tl (tl xs)") auto
  then show ?thesis by simp
qed

lemma three_sorted_unique:
  fixes rk :: "nat \<Rightarrow> 'k::linorder" and a b c :: "16 word"
  assumes "set [a, b, c] = {0, 1, 2}" and "distinct [a, b, c]"
    and "rk (unat a) \<le> rk (unat b)" and "rk (unat b) \<le> rk (unat c)"
    and "rk i < rk j" and "rk j < rk k"
    and "{i, j, k} = {0, 1, 2}"
  shows "[unat a, unat b, unat c] = [i, j, k]"
proof -
  have ij: "i \<noteq> j" "j \<noteq> k" "i \<noteq> k" using assms(5,6) by auto
  have "unat ` set [a, b, c] = {0, 1, 2}" unfolding assms(1) by simp
  then have s: "{unat a, unat b, unat c} = {i, j, k}" using assms(7) by simp
  have d: "unat a \<noteq> unat b" "unat b \<noteq> unat c" "unat a \<noteq> unat c"
    using assms(2) by (auto simp: word_unat_eq_iff)
  have "unat a \<in> {i, j, k}" "unat b \<in> {i, j, k}" "unat c \<in> {i, j, k}" using s by auto
  then show ?thesis using d assms(3,4,5,6) ij by auto
qed


lemma sort_three_keyed:
  fixes b :: "'st QuadBatch" and key :: "nat \<Rightarrow> real"
  assumes rank: "\<And>xs v w. v < 3 \<Longrightarrow> w < 3 \<Longrightarrow>
                (cmp (b\<lparr>order := xs\<rparr>) (Some v) (Some w) < 0) = ((key v, v) < (key w, w))"
    and q: "quadCount b = 3" and len: "3 \<le> length (order b)"
    and perm: "set (take 3 (order b)) = {0, 1, 2}"
    and ord: "(key i, i) < (key j, j)" "(key j, j) < (key k, k)" "{i, j, k} = {0, 1, 2}"
  shows "\<exists>b'. sort_batch cmp b = Some b' \<and> map unat (take 3 (order b')) = [i, j, k] \<and>
               length (order b') = length (order b) \<and> drop 3 (order b') = drop 3 (order b) \<and>
               depth b' = depth b \<and> quadCount b' = quadCount b"
proof -
  have vals: "\<forall>k<3. unat (order b ! k) < 3"
  proof (intro allI impI)
    fix k :: nat assume "k < 3"
    then have "order b ! k \<in> set (take 3 (order b))"
      using len by (auto simp: in_set_conv_nth intro!: exI [of _ k])
    then show "unat (order b ! k) < 3" unfolding perm by auto
  qed
  have n30: "(3::nat) < 2 ^ 30" by simp
  have "\<exists>xs'. sort_batch cmp b = Some (b\<lparr>order := xs'\<rparr>) \<and>
               length xs' = length (order b) \<and>
               set (take 3 xs') = set (take 3 (order b)) \<and>
               distinct (take 3 xs') = distinct (take 3 (order b)) \<and>
               drop 3 xs' = drop 3 (order b) \<and>
               (\<forall>p q. p \<le> q \<and> q < 3 \<longrightarrow> (key (unat (xs' ! p)), unat (xs' ! p))
                                          \<le> (key (unat (xs' ! q)), unat (xs' ! q)))"
    by (rule sort_batch_sorted [where cmp = cmp and b = b and n = 3
          and rk = "\<lambda>v. (key v, v)", OF rank q [symmetric] len n30 vals])
  then obtain xs' where xs': "sort_batch cmp b = Some (b\<lparr>order := xs'\<rparr>)"
    "length xs' = length (order b)"
    "set (take 3 xs') = set (take 3 (order b))"
    "distinct (take 3 xs') = distinct (take 3 (order b))"
    "drop 3 xs' = drop 3 (order b)"
    "\<forall>p q. p \<le> q \<and> q < 3 \<longrightarrow> (key (unat (xs' ! p)), unat (xs' ! p))
                                          \<le> (key (unat (xs' ! q)), unat (xs' ! q))"
    by blast
  have t0: "take 3 (order b) = [order b ! 0, order b ! 1, order b ! 2]"
    using len by (rule take_three)
  have "card (set (take 3 (order b))) = length (take 3 (order b))"
    unfolding perm using len by simp
  then have "distinct (take 3 (order b))" by (rule card_distinct)
  then have d: "distinct (take 3 xs')" using xs'(4) by simp
  have t: "take 3 xs' = [xs' ! 0, xs' ! 1, xs' ! 2]"
    using len xs'(2) by (intro take_three) simp
  have "[unat (xs' ! 0), unat (xs' ! 1), unat (xs' ! 2)] = [i, j, k]"
  proof (rule three_sorted_unique [where rk = "\<lambda>v. (key v, v)"])
    show "set [xs' ! 0, xs' ! 1, xs' ! 2] = {0, 1, 2}" using xs'(3) perm t by simp
    show "distinct [xs' ! 0, xs' ! 1, xs' ! 2]" using d t by simp
    show "(key (unat (xs' ! 0)), unat (xs' ! 0)) \<le> (key (unat (xs' ! 1)), unat (xs' ! 1))"
      using xs'(6) [rule_format, of 0 1] by simp
    show "(key (unat (xs' ! 1)), unat (xs' ! 1)) \<le> (key (unat (xs' ! 2)), unat (xs' ! 2))"
      using xs'(6) [rule_format, of 1 2] by simp
    show "(key i, i) < (key j, j)" "(key j, j) < (key k, k)" "{i, j, k} = {0, 1, 2}"
      by (rule ord)+
  qed
  then have "map unat (take 3 xs') = [i, j, k]" unfolding t by simp
  then show ?thesis using xs'(1,2,5)
    by (intro exI [of _ "b\<lparr>order := xs'\<rparr>"]) simp
qed


lemma unat_list_eq:
  fixes xs ys :: "16 word list"
  shows "map unat xs = map unat ys \<Longrightarrow> xs = ys"
proof -
  have "inj (unat :: 16 word \<Rightarrow> nat)" by (simp add: inj_def word_unat_eq_iff)
  then show "map unat xs = map unat ys \<Longrightarrow> xs = ys" by (simp add: inj_map_eq_map)
qed

text \<open>
  C5.  A batch holds exactly three quads, inserted in order (\<open>order[0..3) = [0, 1, 2]\<close>) with
  depths 3, 1, 2; its capacity, its other attributes and whatever lies beyond the first three
  entries of its arrays are arbitrary.  Then \<open>sort(backToFront)\<close> returns and leaves
  \<open>order[0..3) = [0, 2, 1]\<close>, and \<open>sort(frontToBack)\<close> returns and leaves
  \<open>order[0..3) = [1, 2, 0]\<close>, also when it is applied to the batch already sorted back to
  front.  The rest of \<open>order\<close> is untouched.
\<close>

theorem sort_three_quads:
  fixes b :: "'st QuadBatch"
  assumes q: "quadCount b = 3" and o: "take 3 (order b) = [0, 1, 2]"
    and d: "take 3 (depth b) = [Some 3, Some 1, Some 2]"
  shows "\<exists>b1 b2 b3.
     sort_batch backToFront b = Some b1 \<and> take 3 (order b1) = [0, 2, 1] \<and>
     drop 3 (order b1) = drop 3 (order b) \<and>
     sort_batch frontToBack b = Some b2 \<and> take 3 (order b2) = [1, 2, 0] \<and>
     drop 3 (order b2) = drop 3 (order b) \<and>
     sort_batch frontToBack b1 = Some b3 \<and> take 3 (order b3) = [1, 2, 0] \<and>
     drop 3 (order b3) = drop 3 (order b)"
proof -
  have lo: "3 \<le> length (order b)"
    using arg_cong [OF o, of length] by simp
  have ld: "3 \<le> length (depth b)"
    using arg_cong [OF d, of length] by simp
  have dv: "depth b ! 0 = Some 3" "depth b ! 1 = Some 1" "depth b ! 2 = Some 2"
    using take_three [OF ld] d by simp_all
  have dv1: "depth b ! Suc 0 = Some 1" using dv(2) by simp
  have "i = 0 \<or> i = 1 \<or> i = 2" if "i < 3" for i :: nat using that by auto
  then have nn: "\<forall>i<3. depth b ! i \<noteq> None" using dv by auto
  have po: "set (take 3 (order b)) = {0, 1, 2}" unfolding o by auto
  have btf: "\<exists>c'. sort_batch backToFront c = Some c' \<and> map unat (take 3 (order c')) = [0, 2, 1] \<and>
               length (order c') = length (order c) \<and> drop 3 (order c') = drop 3 (order c) \<and>
               depth c' = depth c \<and> quadCount c' = quadCount c"
    if "quadCount c = 3" "3 \<le> length (order c)" "set (take 3 (order c)) = {0, 1, 2}"
      "depth c = depth b" for c :: "'st QuadBatch"
  proof (rule sort_three_keyed [where key = "\<lambda>v. - the (depth c ! v)", OF _ that(1,2,3)])
    fix xs v w :: nat and ys assume "v < 3" "w < 3"
    then show "(backToFront (c\<lparr>order := ys\<rparr>) (Some v) (Some w) < 0)
        = ((- the (depth c ! v), v) < (- the (depth c ! w), w))"
      using ld nn unfolding that(4) [symmetric] by (rule backToFront_rank)
  qed (auto simp: that(4) dv dv1)
  have ftb: "\<exists>c'. sort_batch frontToBack c = Some c' \<and> map unat (take 3 (order c')) = [1, 2, 0] \<and>
               length (order c') = length (order c) \<and> drop 3 (order c') = drop 3 (order c) \<and>
               depth c' = depth c \<and> quadCount c' = quadCount c"
    if "quadCount c = 3" "3 \<le> length (order c)" "set (take 3 (order c)) = {0, 1, 2}"
      "depth c = depth b" for c :: "'st QuadBatch"
  proof (rule sort_three_keyed [where key = "\<lambda>v. the (depth c ! v)", OF _ that(1,2,3)])
    fix xs v w :: nat and ys assume "v < 3" "w < 3"
    then show "(frontToBack (c\<lparr>order := ys\<rparr>) (Some v) (Some w) < 0)
        = ((the (depth c ! v), v) < (the (depth c ! w), w))"
      using ld nn unfolding that(4) [symmetric] by (rule frontToBack_rank)
  qed (auto simp: that(4) dv dv1)
  from btf [OF q lo po refl] obtain b1 where b1: "sort_batch backToFront b = Some b1"
    "map unat (take 3 (order b1)) = [0, 2, 1]" "length (order b1) = length (order b)"
    "drop 3 (order b1) = drop 3 (order b)" "depth b1 = depth b" "quadCount b1 = quadCount b"
    by (elim exE conjE) (rule that)
  from ftb [OF q lo po refl] obtain b2 where b2: "sort_batch frontToBack b = Some b2"
    "map unat (take 3 (order b2)) = [1, 2, 0]" "drop 3 (order b2) = drop 3 (order b)"
    by (elim exE conjE) (rule that)
  have t1: "take 3 (order b1) = [0, 2, 1]" using b1(2) by (intro unat_list_eq) simp
  have t2: "take 3 (order b2) = [1, 2, 0]" using b2(2) by (intro unat_list_eq) simp
  have p1: "set (take 3 (order b1)) = {0, 1, 2}" unfolding t1 by auto
  have q1: "quadCount b1 = 3" "3 \<le> length (order b1)" using b1(3,6) q lo by simp_all
  from ftb [OF q1 p1 b1(5)]
  obtain b3 where b3: "sort_batch frontToBack b1 = Some b3"
    "map unat (take 3 (order b3)) = [1, 2, 0]" "drop 3 (order b3) = drop 3 (order b1)"
    by (elim exE conjE) (rule that)
  have t3: "take 3 (order b3) = [1, 2, 0]" using b3(2) by (intro unat_list_eq) simp
  have d3: "drop 3 (order b3) = drop 3 (order b)" using b3(3) b1(4) by simp
  show ?thesis
    by (intro exI [of _ b1] exI [of _ b2] exI [of _ b3] conjI b1(1) b1(4) b2(1) b2(3) b3(1) d3 t1 t2 t3)
qed

theorem sort_three_quads_witness:
  "quadCount three_of_four = 3 \<and> length (order three_of_four) = 4 \<and>
   take 3 (order three_of_four) = [0, 1, 2] \<and>
   take 3 (depth three_of_four) = [Some 3, Some 1, Some 2] \<and>
   map_option order (sort_batch backToFront three_of_four) = Some [0, 2, 1, 0] \<and>
   map_option order (sort_batch frontToBack three_of_four) = Some [1, 2, 0, 0] \<and>
   (\<exists>b1 b2. sort_batch backToFront three_of_four = Some b1 \<and> take 3 (order b1) = [0, 2, 1] \<and>
            sort_batch frontToBack three_of_four = Some b2 \<and> take 3 (order b2) = [1, 2, 0])"
proof -
  have q: "quadCount three_of_four = 3" by code_simp
  have o: "take 3 (order three_of_four) = [0, 1, 2]" by code_simp
  have d: "take 3 (depth three_of_four) = [Some 3, Some 1, Some 2]" by code_simp
  have e: "length (order three_of_four) = 4"
    "map_option order (sort_batch backToFront three_of_four) = Some [0, 2, 1, 0]"
    "map_option order (sort_batch frontToBack three_of_four) = Some [1, 2, 0, 0]"
    by code_simp+
  have "\<exists>b1 b2. sort_batch backToFront three_of_four = Some b1 \<and> take 3 (order b1) = [0, 2, 1] \<and>
            sort_batch frontToBack three_of_four = Some b2 \<and> take 3 (order b2) = [1, 2, 0]"
    using sort_three_quads [OF q o d] by blast
  then show ?thesis using q o d e by simp
qed

section \<open>The order array above 65536 quads\<close>

lemma add_sprite_fields:
  "quadCount (add_sprite d b) = Suc (quadCount b)"
  "quadCapacity (add_sprite d b) = quadCapacity b"
  "length (order (add_sprite d b)) = length (order b)"
  "quadCount b < length (order b) \<Longrightarrow>
     order (add_sprite d b) = (order b)[quadCount b := of_nat (quadCount b)]"
  by (simp_all add: add_sprite_def add_def Let_def u16_set_def)

lemma add_sprites_fields:
  "quadCount b + k \<le> length (order b) \<Longrightarrow>
   quadCount (add_sprites k b) = quadCount b + k \<and>
   quadCapacity (add_sprites k b) = quadCapacity b \<and>
   length (order (add_sprites k b)) = length (order b) \<and>
   (\<forall>i. quadCount b \<le> i \<and> i < quadCount b + k \<longrightarrow> order (add_sprites k b) ! i = of_nat i) \<and>
   (\<forall>i < quadCount b. order (add_sprites k b) ! i = order b ! i)"
proof (induction k)
  case 0
  then show ?case by (auto simp: add_sprites_def)
next
  case (Suc k)
  let ?b = "add_sprites k b"
  have s: "add_sprites (Suc k) b = add_sprite (Some 0) ?b" by (simp add: add_sprites_def)
  from Suc have IH: "quadCount ?b = quadCount b + k" "quadCapacity ?b = quadCapacity b"
    "length (order ?b) = length (order b)"
    "\<forall>i. quadCount b \<le> i \<and> i < quadCount b + k \<longrightarrow> order ?b ! i = of_nat i"
    "\<forall>i < quadCount b. order ?b ! i = order b ! i"
    by auto
  have o: "order (add_sprite (Some 0) ?b) = (order ?b)[quadCount b + k := of_nat (quadCount b + k)]"
    using add_sprite_fields(4) [of ?b "Some 0"] IH(1,3) Suc.prems by simp
  show ?case
    unfolding s using IH Suc.prems
    by (auto simp: add_sprite_fields(1,2,3) o nth_list_update)
qed

text \<open>
  C7.  A batch of capacity 65537, which \<open>resize\<close> does not clamp, takes 65537 quads, each
  added while \<open>count < capacity\<close>.  The 16-bit \<open>order\<close> array stores the insertion index
  65536 as 0, so \<open>order[0..count)\<close> holds 0 twice and is not a permutation of \<open>0..count-1\<close>.
\<close>

theorem order_wraps_above_65536:
  "quadCapacity (QuadBatch_new 65537 :: unit QuadBatch) = Some 65537 \<and>
   quadCount (add_sprites 65536 (QuadBatch_new 65537)) = 65536 \<and>
   quadCount (add_sprites 65537 (QuadBatch_new 65537)) = 65537 \<and>
   order (add_sprites 65537 (QuadBatch_new 65537)) ! 0 = 0 \<and>
   order (add_sprites 65537 (QuadBatch_new 65537)) ! 65536 = 0 \<and>
   \<not> distinct (take (quadCount (add_sprites 65537 (QuadBatch_new 65537)))
                 (order (add_sprites 65537 (QuadBatch_new 65537))))"
proof -
  let ?b0 = "QuadBatch_new 65537 :: unit QuadBatch"
  have b0: "quadCount ?b0 = 0" "length (order ?b0) = 65537" "quadCapacity ?b0 = Some 65537"
    by (simp_all add: QuadBatch_new_def resize_sizes)
  have f: "quadCount (add_sprites k ?b0) = k \<and> length (order (add_sprites k ?b0)) = 65537 \<and>
       (\<forall>i < k. order (add_sprites k ?b0) ! i = of_nat i)" if "k \<le> 65537" for k
    using add_sprites_fields [of ?b0 k] that b0 by simp
  let ?b = "add_sprites 65537 ?b0"
  have 0: "order ?b ! 0 = 0" using f [of 65537] by simp
  have "order ?b ! 65536 = (of_nat 65536 :: 16 word)" using f [of 65537] by simp
  then have 1: "order ?b ! 65536 = 0" by simp
  have "\<not> distinct (take (quadCount ?b) (order ?b))"
  proof
    assume "distinct (take (quadCount ?b) (order ?b))"
    then have "take (quadCount ?b) (order ?b) ! 0 \<noteq> take (quadCount ?b) (order ?b) ! 65536"
      using f [of 65537] by (subst nth_eq_iff_index_eq) auto
    then show False using 0 1 f [of 65537] by simp
  qed
  then show ?thesis using 0 1 f [of 65536] f [of 65537] b0 by simp
qed

section \<open>The vertex data and the depth\<close>








end
